theory Spec2Isabelle
  imports Complex_Main "HOL-Library.Log_Nat"
begin

section \<open>The estimator cell of DP_Hypothesis_Testing.ipynb\<close>

text \<open>
  The notebook's only algorithm is the \<^verbatim>\<open>%%ag\<close> cell of Example 2:
  \<^verbatim>\<open>
  LOWER_BOUND = -2**32
  UPPER_BOUND = 2**32
  current_value = 0
  step_size = (UPPER_BOUND - LOWER_BOUND) / 4.0
  k = 64
  eps = 0.02
  t = 0.02
  for i in range(k):
    test = pdf > current_value
    result = test.mean(eps)
    if result[0] > t:
      current_value = current_value + step_size
    else:
      current_value = current_value - step_size
    step_size = step_size/2.
  \<close>
  Modelling decisions:
  \<^item> Arithmetic. The cell computes in Python floats, IEEE 754 binary64, and the
    specification states its properties over the real numbers. The theory has the cell
    in both arithmetics. \<open>EstimateMax\<close> is the loop with exact sums over \<open>real\<close>.
    \<open>EstimateMax_b64\<close> is the same loop with every float operation rounded by
    \<open>binary64\<close>, as the interpreter runs it. On the notebook's domain the two agree
    for the first 53 rounds (\<open>EstimateMax_b64_exact\<close>): every step \<open>2^31 / 2^i\<close> is
    a power of two, and every estimate a multiple of \<open>2^32 / 2^i\<close> that fits the 53
    bits of a float. From round 54 on a sum can need more bits and is rounded. The
    properties of the single round and of the place of the estimate (C3, C5, C9) are
    stated on \<open>EstimateMax_b64\<close>, the other properties on \<open>EstimateMax\<close>.
  \<^item> The two remote calls \<^verbatim>\<open>pdf > current_value\<close> and \<^verbatim>\<open>test.mean(eps)\<close>,
    followed by \<^verbatim>\<open>result[0]\<close>, are one call of an oracle. The oracle is external,
    stateful and noisy: it takes the threshold, \<open>eps\<close> and its own hidden state, and
    returns either an exception or an answer, together with its next state.
  \<^item> The cell has no \<^verbatim>\<open>try\<close>: an exception of the oracle leaves the loop and the
    cell at once. The model returns it as \<open>Inl\<close>, unchanged, in place of the state.
  \<^item> The constants of the cell are parameters of \<open>EstimateMax\<close>, the name the
    specification gives the cell; \<open>estimator_cell\<close> is the cell with the constants it
    has in the notebook. \<open>k\<close> is a Python \<open>int\<close>, and \<^verbatim>\<open>range(k)\<close> is empty for
    \<open>k \<le> 0\<close>: the loop runs \<open>nat k\<close> times. The loop variable \<open>i\<close> is not used by
    the body and is not part of the state.
\<close>

subsection \<open>State, oracle and errors\<close>

record search_state =
  current_value :: real
  step_size :: real

text \<open>Threshold, \<open>eps\<close>, oracle state; the result is an exception or the answer.\<close>

type_synonym ('e, 'o) noisy_compare = "real \<Rightarrow> real \<Rightarrow> 'o \<Rightarrow> ('e + real) \<times> 'o"

text \<open>The error names of the specification. The cell raises none itself.\<close>

datatype error = InvalidConfiguration | OracleUnavailable

subsection \<open>The cell\<close>

definition LOWER_BOUND :: real where
  "LOWER_BOUND = - (2 ^ 32)"

definition UPPER_BOUND :: real where
  "UPPER_BOUND = 2 ^ 32"

text \<open>\<^verbatim>\<open>current_value = 0\<close> and \<^verbatim>\<open>step_size = (UPPER_BOUND - LOWER_BOUND) / 4.0\<close>.\<close>

definition initial_state :: "real \<Rightarrow> real \<Rightarrow> search_state" where
  "initial_state lower upper =
     \<lparr>current_value = 0, step_size = (upper - lower) / 4\<rparr>"

text \<open>One pass through the body of the \<^verbatim>\<open>for\<close> loop.\<close>

definition loop_body ::
  "('e, 'o) noisy_compare \<Rightarrow> real \<Rightarrow> real \<Rightarrow> search_state \<Rightarrow> 'o \<Rightarrow> ('e + search_state) \<times> 'o" where
  "loop_body orc eps t st os =
     (case orc (current_value st) eps os of
        (Inl e, os') \<Rightarrow> (Inl e, os')
      | (Inr result, os') \<Rightarrow>
          (Inr \<lparr>current_value =
                  (if result > t then current_value st + step_size st
                   else current_value st - step_size st),
                step_size = step_size st / 2\<rparr>,
           os'))"

text \<open>\<^verbatim>\<open>for i in range(n)\<close>: the body \<open>n\<close> times, left at the first exception.\<close>

fun for_range ::
  "nat \<Rightarrow> ('e, 'o) noisy_compare \<Rightarrow> real \<Rightarrow> real \<Rightarrow> search_state \<Rightarrow> 'o \<Rightarrow> ('e + search_state) \<times> 'o" where
  "for_range 0 orc eps t st os = (Inr st, os)"
| "for_range (Suc n) orc eps t st os =
     (case loop_body orc eps t st os of
        (Inl e, os') \<Rightarrow> (Inl e, os')
      | (Inr st', os') \<Rightarrow> for_range n orc eps t st' os')"

definition EstimateMax ::
  "real \<Rightarrow> real \<Rightarrow> int \<Rightarrow> real \<Rightarrow> real \<Rightarrow> ('e, 'o) noisy_compare \<Rightarrow> 'o \<Rightarrow> ('e + search_state) \<times> 'o" where
  "EstimateMax lower upper k eps t orc os =
     for_range (nat k) orc eps t (initial_state lower upper) os"


subsection \<open>Oracles used to state the properties\<close>

text \<open>
  An oracle instrumented with a call counter, as a test double would be: every call,
  answered or not, adds one to the counter in front of the oracle's state.
\<close>

definition counting :: "('e, 'o) noisy_compare \<Rightarrow> ('e, nat \<times> 'o) noisy_compare" where
  "counting orc x eps = (\<lambda>(n, os).
     case orc x eps os of (r, os') \<Rightarrow> (r, (Suc n, os')))"

text \<open>An oracle that answers every call: any stateful, noisy answer function.\<close>

definition answering :: "(real \<Rightarrow> real \<Rightarrow> 'o \<Rightarrow> real \<times> 'o) \<Rightarrow> ('e, 'o) noisy_compare" where
  "answering f x eps os = (case f x eps os of (r, os') \<Rightarrow> (Inr r, os'))"

text \<open>
  An oracle that answers from a fixed sequence, whatever the threshold: its state is the
  number of calls made so far, and call number \<open>i\<close> gets \<open>a i\<close>.
\<close>

definition scripted :: "(nat \<Rightarrow> 'e + real) \<Rightarrow> ('e, nat) noisy_compare" where
  "scripted a x eps i = (a i, Suc i)"


text \<open>
  An oracle without state that answers 1, except that it raises \<open>e\<close> when asked at
  the threshold \<open>c\<close>.
\<close>

definition raising_at :: "real \<Rightarrow> 'e \<Rightarrow> ('e, 'o) noisy_compare" where
  "raising_at c e x eps os = (if x = c then Inl e else Inr 1, os)"

subsection \<open>Binary64 arithmetic\<close>

text \<open>
  Python's \<^verbatim>\<open>float\<close> is IEEE 754 binary64. A float is modelled as the real number it
  denotes, and an operation on floats as the exact operation followed by \<open>binary64\<close>,
  the rounding to the nearest float, ties to the even significand.
\<close>

text \<open>Rounding to the nearest integer, a tie to the even one.\<close>

definition round_half_even :: "real \<Rightarrow> int" where
  "round_half_even y =
     (let f = \<lfloor>y\<rfloor>; d = y - of_int f
      in if d < 1 / 2 then f else if 1 / 2 < d then f + 1 else if even f then f else f + 1)"

text \<open>
  The binary exponent of \<open>x \<noteq> 0\<close>, the \<open>e\<close> with \<open>2^e \<le> \<bar>x\<bar> < 2^(e+1)\<close>, from the
  number of bits of the integer part of \<open>\<bar>x\<bar>\<close> or of \<open>1 / \<bar>x\<bar>\<close>.
\<close>

definition exponent :: "real \<Rightarrow> int" where
  "exponent x =
     (if 1 \<le> \<bar>x\<bar> then bitlen \<lfloor>\<bar>x\<bar>\<rfloor> - 1 else - bitlen (\<lceil>1 / \<bar>x\<bar>\<rceil> - 1))"

text \<open>
  The nearest binary64 number: 53 significant bits, so the unit in the last place of a
  number with exponent \<open>e\<close> is \<open>2^(e-52)\<close>; below the exponent \<open>-1022\<close> the unit stays
  \<open>2^-1074\<close> (gradual underflow). Overflow to infinity is not modelled: the result is a
  real number also above \<open>2^1024\<close>. No value of the cell on the notebook's domain
  exceeds \<open>2^33\<close>.
\<close>

definition binary64 :: "real \<Rightarrow> real" where
  "binary64 x =
     (if x = 0 then 0
      else let e = max (exponent x) (- 1022); q = 2 powi (e - 52)
           in of_int (round_half_even (x / q)) * q)"

subsection \<open>The cell in binary64\<close>

text \<open>
  The same cell with every float operation rounded. \<^verbatim>\<open>UPPER_BOUND - LOWER_BOUND\<close>
  is a difference of Python integers, exact, converted to a float by the division by
  \<^verbatim>\<open>4.0\<close>; \<^verbatim>\<open>current_value = 0\<close> is exact.
\<close>

definition initial_state_b64 :: "real \<Rightarrow> real \<Rightarrow> search_state" where
  "initial_state_b64 lower upper =
     \<lparr>current_value = 0, step_size = binary64 (binary64 (upper - lower) / 4)\<rparr>"

definition loop_body_b64 ::
  "('e, 'o) noisy_compare \<Rightarrow> real \<Rightarrow> real \<Rightarrow> search_state \<Rightarrow> 'o \<Rightarrow> ('e + search_state) \<times> 'o" where
  "loop_body_b64 orc eps t st os =
     (case orc (current_value st) eps os of
        (Inl e, os') \<Rightarrow> (Inl e, os')
      | (Inr result, os') \<Rightarrow>
          (Inr \<lparr>current_value =
                  (if result > t then binary64 (current_value st + step_size st)
                   else binary64 (current_value st - step_size st)),
                step_size = binary64 (step_size st / 2)\<rparr>,
           os'))"

fun for_range_b64 ::
  "nat \<Rightarrow> ('e, 'o) noisy_compare \<Rightarrow> real \<Rightarrow> real \<Rightarrow> search_state \<Rightarrow> 'o \<Rightarrow> ('e + search_state) \<times> 'o" where
  "for_range_b64 0 orc eps t st os = (Inr st, os)"
| "for_range_b64 (Suc n) orc eps t st os =
     (case loop_body_b64 orc eps t st os of
        (Inl e, os') \<Rightarrow> (Inl e, os')
      | (Inr st', os') \<Rightarrow> for_range_b64 n orc eps t st' os')"

definition EstimateMax_b64 ::
  "real \<Rightarrow> real \<Rightarrow> int \<Rightarrow> real \<Rightarrow> real \<Rightarrow> ('e, 'o) noisy_compare \<Rightarrow> 'o \<Rightarrow> ('e + search_state) \<times> 'o" where
  "EstimateMax_b64 lower upper k eps t orc os =
     for_range_b64 (nat k) orc eps t (initial_state_b64 lower upper) os"

text \<open>
  The cell as the notebook has it. The literals \<^verbatim>\<open>0.02\<close> are floats: the nearest
  binary64 number to \<open>1/50\<close>.
\<close>

definition estimator_cell_b64 :: "('e, 'o) noisy_compare \<Rightarrow> 'o \<Rightarrow> ('e + search_state) \<times> 'o" where
  "estimator_cell_b64 orc os =
     EstimateMax_b64 LOWER_BOUND UPPER_BOUND 64 (binary64 0.02) (binary64 0.02) orc os"

text \<open>
  The invariant of the first 53 rounds on the notebook's domain, used in the proofs
  only: before round \<open>i\<close> the step is \<open>2^31 / 2^i\<close> and the estimate is a multiple of
  \<open>2^32 / 2^i\<close> inside the domain.
\<close>

definition on_grid :: "nat \<Rightarrow> search_state \<Rightarrow> bool" where
  "on_grid i st \<longleftrightarrow>
     step_size st = 2 ^ 31 / 2 ^ i \<and>
     (\<exists>N :: int. \<bar>N\<bar> < 2 ^ i \<and> current_value st = of_int N * (2 ^ 32 / 2 ^ i))"

section \<open>Properties of the loop\<close>

lemma loop_body_Inr:
  "orc (current_value st) eps os = (Inr r, os') \<Longrightarrow>
   loop_body orc eps t st os =
     (Inr \<lparr>current_value = (if r > t then current_value st + step_size st
                             else current_value st - step_size st),
           step_size = step_size st / 2\<rparr>, os')"
  by (simp add: loop_body_def)

lemma loop_body_Inl:
  "orc (current_value st) eps os = (Inl e, os') \<Longrightarrow>
   loop_body orc eps t st os = (Inl e, os')"
  by (simp add: loop_body_def)

lemma loop_body_cases:
  obtains (raises) e os' where "orc (current_value st) eps os = (Inl e, os')"
    and "loop_body orc eps t st os = (Inl e, os')"
  | (answers) r os' where "orc (current_value st) eps os = (Inr r, os')"
    and "loop_body orc eps t st os =
      (Inr \<lparr>current_value = (if r > t then current_value st + step_size st
                              else current_value st - step_size st),
            step_size = step_size st / 2\<rparr>, os')"
proof (cases "orc (current_value st) eps os")
  case (Pair res os')
  then show ?thesis
    by (cases res) (auto intro: raises answers simp: loop_body_Inl loop_body_Inr)
qed

text \<open>A run of \<open>n + 1\<close> rounds is a run of \<open>n\<close> rounds followed by one more body.\<close>

lemma for_range_Suc_end:
  "for_range (Suc n) orc eps t st os =
     (case for_range n orc eps t st os of
        (Inl e, os') \<Rightarrow> (Inl e, os')
      | (Inr st', os') \<Rightarrow> loop_body orc eps t st' os')"
proof (induction n arbitrary: st os)
  case 0
  show ?case by (simp split: prod.splits sum.splits)
next
  case (Suc n)
  show ?case
  proof (cases rule: loop_body_cases [of orc st eps os t])
    case (raises e os')
    then show ?thesis by simp
  next
    case (answers r os')
    then show ?thesis using Suc.IH by simp
  qed
qed

text \<open>Every completed round halves the step, whatever the oracle answered.\<close>

lemma for_range_step_size:
  "for_range n orc eps t st os = (Inr st', os') \<Longrightarrow> step_size st' = step_size st / 2 ^ n"
proof (induction n arbitrary: st os)
  case 0
  then show ?case by simp
next
  case (Suc n)
  show ?case
  proof (cases rule: loop_body_cases [of orc st eps os t])
    case (raises e os1)
    with Suc.prems show ?thesis by simp
  next
    case (answers r os1)
    with Suc.prems Suc.IH show ?thesis by fastforce
  qed
qed

text \<open>Once a run has failed, asking for more rounds changes nothing.\<close>

lemma for_range_Inl_stable:
  "for_range n orc eps t st os = (Inl e, os') \<Longrightarrow> for_range (n + m) orc eps t st os = (Inl e, os')"
proof (induction m)
  case 0
  then show ?case by simp
next
  case (Suc m)
  then have "for_range (n + m) orc eps t st os = (Inl e, os')" by simp
  then have "for_range (Suc (n + m)) orc eps t st os = (Inl e, os')"
    by (simp only: for_range_Suc_end) simp
  then show ?case by simp
qed

text \<open>A run that completed \<open>n\<close> rounds completed every shorter run as well.\<close>

lemma for_range_prefix:
  assumes "for_range n orc eps t st os = (Inr st', os')" and "m \<le> n"
  shows "\<exists>st1 os1. for_range m orc eps t st os = (Inr st1, os1)"
proof (rule ccontr)
  assume "\<not> ?thesis"
  then obtain e os1 where "for_range m orc eps t st os = (Inl e, os1)"
    by (cases "for_range m orc eps t st os") (metis sum.exhaust)
  from for_range_Inl_stable [OF this, of "n - m"] assms show False by simp
qed

text \<open>A run of \<open>n + m\<close> rounds is a run of \<open>n\<close> rounds continued for \<open>m\<close> more.\<close>

lemma for_range_add:
  "for_range (n + m) orc eps t st os =
     (case for_range n orc eps t st os of
        (Inl e, os') \<Rightarrow> (Inl e, os')
      | (Inr st', os') \<Rightarrow> for_range m orc eps t st' os')"
proof (induction n arbitrary: st os)
  case 0
  show ?case by simp
next
  case (Suc n)
  show ?case
  proof (cases rule: loop_body_cases [of orc st eps os t])
    case (raises e os')
    then show ?thesis by simp
  next
    case (answers r os')
    then show ?thesis using Suc.IH by simp
  qed
qed

subsection \<open>How far the estimate can move\<close>

text \<open>
  Round \<open>i\<close> moves the estimate by the step of that round, so \<open>n\<close> rounds move it by at
  most the geometric sum of the steps, which is twice the first step minus twice the
  step that is left.
\<close>

lemma for_range_displacement:
  "for_range n orc eps t st os = (Inr st', os') \<Longrightarrow>
   \<bar>current_value st' - current_value st\<bar> \<le> 2 * \<bar>step_size st\<bar> - 2 * \<bar>step_size st'\<bar>"
proof (induction n arbitrary: st os)
  case 0
  then show ?case by simp
next
  case (Suc n)
  show ?case
  proof (cases rule: loop_body_cases [of orc st eps os t])
    case (raises e os1)
    with Suc.prems show ?thesis by simp
  next
    case (answers r os1)
    define st1 where "st1 =
      \<lparr>current_value = (if r > t then current_value st + step_size st
                        else current_value st - step_size st),
       step_size = step_size st / 2\<rparr>"
    from answers Suc.prems have "for_range n orc eps t st1 os1 = (Inr st', os')"
      by (simp add: st1_def)
    then have "\<bar>current_value st' - current_value st1\<bar>
        \<le> 2 * \<bar>step_size st1\<bar> - 2 * \<bar>step_size st'\<bar>"
      by (rule Suc.IH)
    moreover have "\<bar>current_value st1 - current_value st\<bar> = \<bar>step_size st\<bar>"
      by (simp add: st1_def)
    moreover have "2 * \<bar>step_size st1\<bar> = \<bar>step_size st\<bar>"
      by (simp add: st1_def)
    ultimately show ?thesis by linarith
  qed
qed

subsection \<open>The noiseless oracle\<close>


subsection \<open>The call counter\<close>

lemma loop_body_counting:
  "loop_body (counting orc) eps t st (c, os) =
     (case loop_body orc eps t st os of (r, os') \<Rightarrow> (r, (Suc c, os')))"
  by (simp add: loop_body_def counting_def split: prod.splits sum.splits)

lemma for_range_counting_Inr:
  "for_range n orc eps t st os = (Inr st', os') \<Longrightarrow>
   for_range n (counting orc) eps t st (c, os) = (Inr st', (c + n, os'))"
proof (induction n arbitrary: st os c)
  case 0
  then show ?case by simp
next
  case (Suc n)
  show ?case
  proof (cases rule: loop_body_cases [of orc st eps os t])
    case (raises e os1)
    with Suc.prems show ?thesis by simp
  next
    case (answers r os1)
    with Suc.prems Suc.IH [of _ os1 "Suc c"] show ?thesis
      by (simp add: loop_body_counting)
  qed
qed

lemma for_range_answering:
  fixes f :: "real \<Rightarrow> real \<Rightarrow> 'o \<Rightarrow> real \<times> 'o"
  defines "orc \<equiv> (answering f :: ('e, 'o) noisy_compare)"
  shows "\<exists>st' os'. for_range n orc eps t st os = (Inr st', os')"
proof (induction n arbitrary: st os)
  case 0
  show ?case by simp
next
  case (Suc n)
  obtain r os1 where f: "f (current_value st) eps os = (r, os1)"
    by (cases "f (current_value st) eps os")
  then have "orc (current_value st) eps os = (Inr r, os1)"
    by (simp add: answering_def orc_def)
  then have "loop_body orc eps t st os =
      (Inr \<lparr>current_value = (if r > t then current_value st + step_size st
                              else current_value st - step_size st),
            step_size = step_size st / 2\<rparr>, os1)"
    by (rule loop_body_Inr)
  with Suc.IH show ?case by simp
qed

subsection \<open>What one completed round did\<close>

lemma loop_body_InrD:
  assumes "loop_body orc eps t st os = (Inr st', os')"
  obtains r where "orc (current_value st) eps os = (Inr r, os')"
    and "current_value st' = (if r > t then current_value st + step_size st
                              else current_value st - step_size st)"
    and "step_size st' = step_size st / 2"
proof (cases rule: loop_body_cases [of orc st eps os t])
  case (raises e os1)
  with assms show ?thesis by simp
next
  case (answers r os1)
  with assms that [of r] show ?thesis by auto
qed

lemma for_range_Suc_InrD:
  assumes "for_range (Suc n) orc eps t st os = (Inr st', os')"
  obtains st1 os1 where "for_range n orc eps t st os = (Inr st1, os1)"
    and "loop_body orc eps t st1 os1 = (Inr st', os')"
proof -
  from for_range_prefix [OF assms, of n]
  obtain st1 os1 where run: "for_range n orc eps t st os = (Inr st1, os1)"
    by auto
  with assms have "loop_body orc eps t st1 os1 = (Inr st', os')"
    by (simp only: for_range_Suc_end) simp
  with run that show ?thesis by blast
qed

subsection \<open>An exception of the oracle\<close>

text \<open>
  When the first \<open>j\<close> rounds have completed and the oracle raises in the next one, every
  run with more than \<open>j\<close> rounds ends with that exception and with the oracle state the
  failing call left.
\<close>

lemma for_range_aborts:
  assumes "for_range j orc eps t st0 os = (Inr st, os1)"
    and "orc (current_value st) eps os1 = (Inl e, os2)"
    and "j < n"
  shows "for_range n orc eps t st0 os = (Inl e, os2)"
proof -
  have "loop_body orc eps t st os1 = (Inl e, os2)"
    using assms(2) by (rule loop_body_Inl)
  with assms(1) have "for_range (Suc j) orc eps t st0 os = (Inl e, os2)"
    by (simp only: for_range_Suc_end) simp
  from for_range_Inl_stable [OF this, of "n - Suc j"] assms(3) show ?thesis
    by simp
qed

subsection \<open>Two runs on two sequences of answers\<close>

text \<open>
  Two runs from the same non-negative step, the first starting no lower than the second
  and getting answers no smaller than the second's: the first ends no lower. Where the
  second run's answer exceeds the threshold, so does the first's.
\<close>

lemma for_range_scripted_mono:
  fixes a b :: "nat \<Rightarrow> real"
  defines "A \<equiv> (scripted (\<lambda>i. Inr (a i)) :: ('e, nat) noisy_compare)"
    and "B \<equiv> (scripted (\<lambda>i. Inr (b i)) :: ('e, nat) noisy_compare)"
  shows "0 \<le> step_size sa \<Longrightarrow> step_size sb = step_size sa \<Longrightarrow>
    current_value sb \<le> current_value sa \<Longrightarrow> \<forall>i<n. b (j + i) \<le> a (j + i) \<Longrightarrow>
    \<exists>sa' sb'. for_range n A eps t sa j = (Inr sa', j + n) \<and>
              for_range n B eps t sb j = (Inr sb', j + n) \<and>
              current_value sb' \<le> current_value sa'"
proof (induction n arbitrary: sa sb j)
  case 0
  then show ?case by simp
next
  case (Suc n)
  define sa1 where "sa1 =
    \<lparr>current_value = (if a j > t then current_value sa + step_size sa
                      else current_value sa - step_size sa),
     step_size = step_size sa / 2\<rparr>"
  define sb1 where "sb1 =
    \<lparr>current_value = (if b j > t then current_value sb + step_size sb
                      else current_value sb - step_size sb),
     step_size = step_size sb / 2\<rparr>"
  have "A (current_value sa) eps j = (Inr (a j), Suc j)"
    by (simp add: A_def scripted_def)
  then have bodyA: "loop_body A eps t sa j = (Inr sa1, Suc j)"
    unfolding sa1_def by (rule loop_body_Inr)
  have "B (current_value sb) eps j = (Inr (b j), Suc j)"
    by (simp add: B_def scripted_def)
  then have bodyB: "loop_body B eps t sb j = (Inr sb1, Suc j)"
    unfolding sb1_def by (rule loop_body_Inr)
  from Suc.prems(4) have "b j \<le> a j"
    by (metis add.right_neutral zero_less_Suc)
  with Suc.prems(1-3) have le: "current_value sb1 \<le> current_value sa1"
    by (auto simp: sa1_def sb1_def)
  have pos: "0 \<le> step_size sa1" and eq: "step_size sb1 = step_size sa1"
    using Suc.prems(1,2) by (simp_all add: sa1_def sb1_def)
  have "\<forall>i<n. b (Suc j + i) \<le> a (Suc j + i)"
    using Suc.prems(4) by (metis Suc_less_eq add_Suc_shift)
  from Suc.IH [OF pos eq le this]
  obtain sa' sb' where "for_range n A eps t sa1 (Suc j) = (Inr sa', Suc j + n)"
    and "for_range n B eps t sb1 (Suc j) = (Inr sb', Suc j + n)"
    and "current_value sb' \<le> current_value sa'"
    by blast
  with bodyA bodyB show ?case
    by simp
qed

subsection \<open>Concrete runs\<close>

text \<open>
  Runs of the cell's loop on the notebook's domain against oracles that answer from a
  fixed sequence, evaluated round by round.
\<close>

lemma initial_state_notebook:
  "initial_state LOWER_BOUND UPPER_BOUND = \<lparr>current_value = 0, step_size = 2147483648\<rparr>"
  by (simp add: initial_state_def LOWER_BOUND_def UPPER_BOUND_def)

lemma loop_body_scripted_up:
  "t < r \<Longrightarrow> loop_body (scripted (\<lambda>i. Inr r)) eps t \<lparr>current_value = c, step_size = s\<rparr> n =
     (Inr \<lparr>current_value = c + s, step_size = s / 2\<rparr>, Suc n)"
  by (simp add: loop_body_def scripted_def)

lemma loop_body_scripted_down:
  "\<not> t < r \<Longrightarrow> loop_body (scripted (\<lambda>i. Inr r)) eps t \<lparr>current_value = c, step_size = s\<rparr> n =
     (Inr \<lparr>current_value = c - s, step_size = s / 2\<rparr>, Suc n)"
  by (simp add: loop_body_def scripted_def)

lemma run_zero_rounds:
  "EstimateMax LOWER_BOUND UPPER_BOUND 0 eps t orc os =
     (Inr \<lparr>current_value = 0, step_size = 2147483648\<rparr>, os)"
  by (simp add: EstimateMax_def initial_state_notebook)

lemma run_one_round_up:
  "EstimateMax LOWER_BOUND UPPER_BOUND 1 0.02 0.02 (scripted (\<lambda>i. Inr 1)) 0 =
     (Inr \<lparr>current_value = 2147483648, step_size = 1073741824\<rparr>, 1)"
  by (simp add: EstimateMax_def initial_state_notebook loop_body_scripted_up)

lemma run_two_rounds_up:
  "EstimateMax LOWER_BOUND UPPER_BOUND 2 0.02 0.02 (scripted (\<lambda>i. Inr 1)) 0 =
     (Inr \<lparr>current_value = 3221225472, step_size = 536870912\<rparr>, 2)"
  by (simp add: EstimateMax_def initial_state_notebook loop_body_scripted_up numeral_2_eq_2)

lemma run_three_rounds_up:
  "EstimateMax LOWER_BOUND UPPER_BOUND 3 0.02 0.02 (scripted (\<lambda>i. Inr 1)) 0 =
     (Inr \<lparr>current_value = 3758096384, step_size = 268435456\<rparr>, 3)"
  by (simp add: EstimateMax_def initial_state_notebook loop_body_scripted_up numeral_3_eq_3)

subsection \<open>The resolution after \<open>k\<close> rounds, in exact arithmetic\<close>

text \<open>
  With exact sums, after \<open>k \<ge> 1\<close> rounds on a domain with \<open>lower \<le> upper\<close>: twice
  the remaining step is \<open>(upper - lower) / 2^(k+1)\<close>, the last round moved the estimate
  by exactly that much, and further rounds stay within it.
\<close>

lemma exact_final_precision:
  assumes "lower \<le> upper" and "1 \<le> k"
    and "EstimateMax lower upper k eps t orc os = (Inr st, os')"
  shows "2 * step_size st = (upper - lower) / 2 ^ (nat k + 1) \<and>
    (\<exists>st0 os0. EstimateMax lower upper (k - 1) eps t orc os = (Inr st0, os0) \<and>
       \<bar>current_value st - current_value st0\<bar> = (upper - lower) / 2 ^ (nat k + 1)) \<and>
    (\<forall>m st2 os2. EstimateMax lower upper (k + int m) eps t orc os = (Inr st2, os2) \<longrightarrow>
       \<bar>current_value st2 - current_value st\<bar> \<le> (upper - lower) / 2 ^ (nat k + 1))"
proof -
  let ?st0 = "initial_state lower upper"
  from assms(2) obtain n where k: "nat k = Suc n" and k1: "nat (k - 1) = n"
    by (cases "nat k") auto
  have run: "for_range (Suc n) orc eps t ?st0 os = (Inr st, os')"
    using assms(3) by (simp add: EstimateMax_def k)
  have ss: "step_size st = step_size ?st0 / 2 ^ Suc n"
    by (rule for_range_step_size [OF run])
  then have step: "2 * step_size st = (upper - lower) / 2 ^ (Suc n + 1)"
    by (simp add: initial_state_def field_simps)
  have pos: "0 \<le> step_size st"
    using assms(1) by (simp add: ss initial_state_def)
  from run obtain st1 os1 where run1: "for_range n orc eps t ?st0 os = (Inr st1, os1)"
    and body: "loop_body orc eps t st1 os1 = (Inr st, os')"
    by (rule for_range_Suc_InrD)
  from body have "\<bar>current_value st - current_value st1\<bar> = \<bar>step_size st1\<bar>"
    and "step_size st = step_size st1 / 2"
    by (auto elim!: loop_body_InrD)
  with step assms(1) have "\<bar>current_value st - current_value st1\<bar> = (upper - lower) / 2 ^ (Suc n + 1)"
    by simp
  with run1 have last: "\<exists>st0 os0. EstimateMax lower upper (k - 1) eps t orc os = (Inr st0, os0) \<and>
       \<bar>current_value st - current_value st0\<bar> = (upper - lower) / 2 ^ (Suc n + 1)"
    by (simp add: EstimateMax_def k1)
  have more: "\<bar>current_value st2 - current_value st\<bar> \<le> (upper - lower) / 2 ^ (Suc n + 1)"
    if "EstimateMax lower upper (k + int m) eps t orc os = (Inr st2, os2)" for m st2 os2
  proof -
    have "nat (k + int m) = Suc n + m"
      using assms(2) k by simp
    with that have "for_range (Suc n + m) orc eps t ?st0 os = (Inr st2, os2)"
      by (simp add: EstimateMax_def)
    then have "for_range m orc eps t st os' = (Inr st2, os2)"
      by (simp only: for_range_add run) simp
    then have "\<bar>current_value st2 - current_value st\<bar> \<le> 2 * \<bar>step_size st\<bar> - 2 * \<bar>step_size st2\<bar>"
      by (rule for_range_displacement)
    then show ?thesis
      using step pos by simp
  qed
  from step last more show ?thesis
    by (simp only: k) blast
qed

section \<open>Properties of binary64 rounding\<close>

lemma rhe_of_int: "round_half_even (of_int n) = n"
  by (simp add: round_half_even_def)

lemma rhe_near: "\<bar>of_int (round_half_even y) - y\<bar> \<le> 1 / 2"
  unfolding round_half_even_def Let_def by (auto simp: abs_le_iff)

lemma rhe_mono: assumes "y \<le> z" shows "round_half_even y \<le> round_half_even z"
proof (rule ccontr)
  assume "\<not> ?thesis"
  then have "round_half_even z + 1 \<le> round_half_even y" by simp
  then have "of_int (round_half_even z) + 1 \<le> (of_int (round_half_even y) :: real)"
    by (metis of_int_1 of_int_add of_int_le_iff)
  with rhe_near [of y] rhe_near [of z] assms have "y = z"
    by (simp add: abs_le_iff)
  with \<open>\<not> ?thesis\<close> show False by simp
qed

lemma rhe_below_half: "of_int n \<le> y \<Longrightarrow> y < of_int n + 1 / 2 \<Longrightarrow> round_half_even y = n"
proof -
  assume a: "of_int n \<le> y" "y < of_int n + 1 / 2"
  then have "\<lfloor>y\<rfloor> = n" by linarith
  with a show ?thesis by (simp add: round_half_even_def)
qed

lemma rhe_above_half: "of_int n + 1 / 2 < y \<Longrightarrow> y \<le> of_int n + 1 \<Longrightarrow> round_half_even y = n + 1"
proof (cases "y = of_int n + 1")
  case True
  then have "y = of_int (n + 1)" by simp
  then show ?thesis by (simp only: rhe_of_int)
next
  case False
  assume a: "of_int n + 1 / 2 < y" "y \<le> of_int n + 1"
  with False have "\<lfloor>y\<rfloor> = n" by linarith
  with a show ?thesis by (simp add: round_half_even_def)
qed

lemma rhe_tie: "round_half_even (of_int n + 1 / 2) = (if even n then n else n + 1)"
proof -
  have "\<lfloor>of_int n + 1 / 2 :: real\<rfloor> = n" by linarith
  then show ?thesis by (simp add: round_half_even_def)
qed

text \<open>The exponent and the rounding in terms of the logarithm.\<close>

lemma exponent_log:
  assumes "x \<noteq> 0"
  shows "exponent x = \<lfloor>log 2 \<bar>x\<bar>\<rfloor>"
proof (cases "1 \<le> \<bar>x\<bar>")
  case True
  define n where "n = \<lfloor>\<bar>x\<bar>\<rfloor>"
  have n: "0 < n" using True by (simp add: n_def)
  define b where "b = bitlen n"
  have b1: "1 \<le> b" using n by (simp add: b_def bitlen_alt_def)
  from bitlen_bounds [OF n] have lo: "2 ^ nat (b - 1) \<le> n" and hi: "n < 2 ^ nat b"
    by (simp_all add: b_def)
  have "(2 :: real) powr of_int (b - 1) = 2 ^ nat (b - 1)"
    using b1 powr_int [of 2 "b - 1"] by simp
  also have "\<dots> = of_int (2 ^ nat (b - 1))" by simp
  also have "\<dots> \<le> of_int n" using lo by (simp only: of_int_le_iff)
  also have "\<dots> \<le> \<bar>x\<bar>" by (simp add: n_def)
  finally have l: "2 powr of_int (b - 1) \<le> \<bar>x\<bar>" .
  have "n + 1 \<le> 2 ^ nat b" using hi by simp
  then have "(of_int (n + 1) :: real) \<le> of_int (2 ^ nat b)" by (simp only: of_int_le_iff)
  then have "(of_int n + 1 :: real) \<le> 2 ^ nat b" by simp
  moreover have "\<bar>x\<bar> < of_int n + 1" unfolding n_def by linarith
  ultimately have "\<bar>x\<bar> < 2 ^ nat b" by linarith
  also have "\<dots> = 2 powr of_int b"
    using b1 powr_int [of 2 b] by simp
  finally have h: "\<bar>x\<bar> < 2 powr (of_int (b - 1) + 1)" by simp
  have "\<lfloor>log 2 \<bar>x\<bar>\<rfloor> = b - 1"
    using l h assms by (simp add: floor_log_eq_powr_iff)
  then show ?thesis
    using True by (simp add: exponent_def n_def b_def)
next
  case False
  define y where "y = 1 / \<bar>x\<bar>"
  have x0: "0 < \<bar>x\<bar>" using assms by simp
  have y1: "1 < y" using False x0 by (simp add: y_def)
  define m where "m = \<lceil>y\<rceil>"
  have m: "0 < m - 1" using y1 by (simp add: m_def)
  define b where "b = bitlen (m - 1)"
  have b1: "1 \<le> b" using m by (simp add: b_def bitlen_alt_def)
  from bitlen_bounds [OF m] have lo: "2 ^ nat (b - 1) \<le> m - 1" and hi: "m - 1 < 2 ^ nat b"
    by (simp_all add: b_def)
  have "m \<le> 2 ^ nat b" using hi by simp
  then have "(of_int m :: real) \<le> of_int (2 ^ nat b)" by (simp only: of_int_le_iff)
  then have "(of_int m :: real) \<le> 2 ^ nat b" by simp
  moreover have "y \<le> of_int m" by (simp add: m_def)
  ultimately have "y \<le> 2 ^ nat b" by linarith
  then have "1 / 2 ^ nat b \<le> \<bar>x\<bar>"
    using x0 by (simp add: y_def field_simps)
  moreover have "(2 :: real) powr of_int (- b) = 1 / 2 ^ nat b"
    using b1 powr_int [of 2 "- b"] by simp
  ultimately have l: "2 powr of_int (- b) \<le> \<bar>x\<bar>" by simp
  have "(of_int (2 ^ nat (b - 1)) :: real) \<le> of_int (m - 1)"
    using lo by (simp only: of_int_le_iff)
  then have "(2 :: real) ^ nat (b - 1) \<le> of_int m - 1" by simp
  moreover have "of_int m - 1 < y" unfolding m_def by linarith
  ultimately have "2 ^ nat (b - 1) < y" by linarith
  then have "\<bar>x\<bar> < 1 / 2 ^ nat (b - 1)"
    using x0 by (simp add: y_def field_simps)
  moreover have "(2 :: real) powr (of_int (- b) + 1) = 1 / 2 ^ nat (b - 1)"
  proof -
    have "(of_int (- b) + 1 :: real) = of_int (- (b - 1))" by simp
    then show ?thesis
      using b1 powr_int [of 2 "- (b - 1)"] by (cases "b = 1") simp_all
  qed
  ultimately have h: "\<bar>x\<bar> < 2 powr (of_int (- b) + 1)" by simp
  have "\<lfloor>log 2 \<bar>x\<bar>\<rfloor> = - b"
    using l h assms by (simp add: floor_log_eq_powr_iff)
  then show ?thesis
    using False by (simp add: exponent_def y_def m_def b_def)
qed

lemma binary64_log:
  "binary64 x =
     (if x = 0 then 0
      else let e = max \<lfloor>log 2 \<bar>x\<bar>\<rfloor> (- 1022); q = 2 powr (of_int e - 52)
           in of_int (round_half_even (x / q)) * q)"
proof -
  have "(2 :: real) powi (e - 52) = 2 powr (of_int e - 52)" for e :: int
    using powr_real_of_int' [of 2 "e - 52"] by simp
  then show ?thesis
    by (simp add: binary64_def exponent_log Let_def)
qed

lemma two_powr_int:
  "(2 :: real) powr of_int z = (if 0 \<le> z then 2 ^ nat z else 1 / 2 ^ nat (- z))"
  by (simp add: powr_int)

lemma two_powr_nat_diff:
  "a \<le> b \<Longrightarrow> (2 :: real) powr of_int b / 2 powr of_int a = 2 ^ nat (b - a)"
proof -
  assume "a \<le> b"
  have "(2 :: real) powr of_int b / 2 powr of_int a = 2 powr (of_int b - of_int a)"
    by (simp add: powr_diff)
  also have "\<dots> = 2 powr of_int (b - a)" by simp
  also have "\<dots> = 2 ^ nat (b - a)" using \<open>a \<le> b\<close> by (simp only: two_powr_int) simp
  finally show ?thesis .
qed

lemma binary64_exponent:
  assumes "x \<noteq> 0"
  obtains e :: int where "2 powr of_int e \<le> \<bar>x\<bar>" and "\<bar>x\<bar> < 2 powr (of_int e + 1)"
    and "binary64 x =
      of_int (round_half_even (x / 2 powr (of_int (max e (- 1022)) - 52))) *
        2 powr (of_int (max e (- 1022)) - 52)"
proof -
  define e where "e = \<lfloor>log 2 \<bar>x\<bar>\<rfloor>"
  have "0 < \<bar>x\<bar>" using assms by simp
  then have "2 powr of_int e \<le> \<bar>x\<bar> \<and> \<bar>x\<bar> < 2 powr (of_int e + 1)"
    using floor_log_eq_powr_iff [of "\<bar>x\<bar>" 2 e] by (simp add: e_def)
  moreover have "binary64 x =
      of_int (round_half_even (x / 2 powr (of_int (max e (- 1022)) - 52))) *
        2 powr (of_int (max e (- 1022)) - 52)"
    using assms by (simp add: binary64_log e_def Let_def)
  ultimately show ?thesis using that by blast
qed

lemma binary64_0: "binary64 0 = 0"
  by (simp add: binary64_log)

lemma binary64_exact:
  assumes x: "x = of_int N * 2 powr of_int j" and N: "\<bar>N\<bar> < 2 ^ 53" and j: "- 1074 \<le> j"
  shows "binary64 x = x"
proof (cases "N = 0")
  case True
  with x show ?thesis by (simp add: binary64_0)
next
  case False
  then have nz: "x \<noteq> 0" using x by simp
  from nz obtain e :: int where lo: "2 powr of_int e \<le> \<bar>x\<bar>"
    and b: "binary64 x =
      of_int (round_half_even (x / 2 powr (of_int (max e (- 1022)) - 52))) *
        2 powr (of_int (max e (- 1022)) - 52)"
    by (rule binary64_exponent)
  have "\<bar>x\<bar> = of_int \<bar>N\<bar> * 2 powr of_int j"
    by (simp add: x abs_mult)
  also have "\<dots> < 2 ^ 53 * 2 powr of_int j"
  proof -
    have "(of_int \<bar>N\<bar> :: real) < of_int (2 ^ 53)" using N by (simp only: of_int_less_iff)
    then show ?thesis by simp
  qed
  also have "\<dots> = 2 powr of_int (53 + j)"
    by (simp add: powr_add)
  finally have "\<bar>x\<bar> < 2 powr of_int (53 + j)" .
  with lo have "2 powr of_int e < (2 :: real) powr of_int (53 + j)"
    by (rule le_less_trans)
  then have "e < 53 + j" by simp
  define e' where "e' = max e (- 1022) - 52"
  have le: "e' \<le> j" using \<open>e < 53 + j\<close> j by (simp add: e'_def)
  have q: "2 powr (of_int (max e (- 1022)) - 52) = (2 :: real) powr of_int e'"
    by (simp add: e'_def)
  have "x / 2 powr of_int e' = of_int N * (2 powr of_int j / 2 powr of_int e')"
    by (simp add: x)
  also have "\<dots> = of_int N * 2 ^ nat (j - e')"
    using le by (simp only: two_powr_nat_diff)
  also have "\<dots> = of_int (N * 2 ^ nat (j - e'))" by simp
  finally have "round_half_even (x / 2 powr of_int e') = N * 2 ^ nat (j - e')"
    by (simp only: rhe_of_int)
  then have "binary64 x = of_int (N * 2 ^ nat (j - e')) * 2 powr of_int e'"
    by (simp only: b q)
  also have "\<dots> = of_int N * (2 ^ nat (j - e') * 2 powr of_int e')" by simp
  also have "(2 :: real) ^ nat (j - e') * 2 powr of_int e' = 2 powr of_int j"
    using two_powr_nat_diff [OF le] by (simp add: field_simps)
  finally show ?thesis by (simp add: x)
qed

lemma binary64_binade:
  assumes "2 powr of_int e \<le> \<bar>x\<bar>" and "\<bar>x\<bar> < 2 powr (of_int e + 1)" and "- 1022 \<le> e"
  shows "binary64 x =
    of_int (round_half_even (x / 2 powr of_int (e - 52))) * 2 powr of_int (e - 52)"
proof -
  have "(0 :: real) < 2 powr of_int e" by simp
  with assms(1) have pos: "0 < \<bar>x\<bar>" by linarith
  then have "\<lfloor>log 2 \<bar>x\<bar>\<rfloor> = e"
    using assms(1,2) by (simp add: floor_log_eq_powr_iff)
  moreover have "x \<noteq> 0" using pos by simp
  ultimately show ?thesis
    using assms(3) by (simp add: binary64_log Let_def max_def)
qed

lemma binary64_nonneg: assumes "0 \<le> x" shows "0 \<le> binary64 x"
proof (cases "x = 0")
  case True
  then show ?thesis by (simp add: binary64_0)
next
  case False
  then obtain e :: int where b: "binary64 x =
      of_int (round_half_even (x / 2 powr (of_int (max e (- 1022)) - 52))) *
        2 powr (of_int (max e (- 1022)) - 52)"
    by (rule binary64_exponent)
  have "0 \<le> x / 2 powr (of_int (max e (- 1022)) - 52)"
    using assms by simp
  then have "round_half_even 0 \<le> round_half_even (x / 2 powr (of_int (max e (- 1022)) - 52))"
    by (rule rhe_mono)
  then have "0 \<le> round_half_even (x / 2 powr (of_int (max e (- 1022)) - 52))"
    using rhe_of_int [of 0] by simp
  then show ?thesis
    by (simp only: b) simp
qed

lemma binary64_abs_le:
  assumes x: "\<bar>x\<bar> \<le> 2 powr of_int j" and j: "- 1021 \<le> j"
  shows "\<bar>binary64 x\<bar> \<le> 2 powr of_int j"
proof (cases "x = 0")
  case True
  then show ?thesis by (simp add: binary64_0)
next
  case nz: False
  show ?thesis
  proof (cases "\<bar>x\<bar> = 2 powr of_int j")
    case True
    then have "x = of_int 1 * 2 powr of_int j \<or> x = of_int (- 1) * 2 powr of_int j"
      by (auto simp: abs_if split: if_splits)
    moreover have "\<bar>1 :: int\<bar> < 2 ^ 53" and "\<bar>- 1 :: int\<bar> < 2 ^ 53" and "- 1074 \<le> j"
      using j by simp_all
    ultimately have "binary64 x = x"
      by (metis binary64_exact)
    with True show ?thesis by simp
  next
    case False
    with x have lt: "\<bar>x\<bar> < 2 powr of_int j" by simp
    from nz obtain e :: int where lo: "2 powr of_int e \<le> \<bar>x\<bar>"
      and hi: "\<bar>x\<bar> < 2 powr (of_int e + 1)"
      and b: "binary64 x =
        of_int (round_half_even (x / 2 powr (of_int (max e (- 1022)) - 52))) *
          2 powr (of_int (max e (- 1022)) - 52)"
      by (rule binary64_exponent)
    define e' where "e' = max e (- 1022)"
    define q :: real where "q = 2 powr (of_int e' - 52)"
    have qpos: "0 < q" by (simp add: q_def)
    from lo lt have "2 powr of_int e < (2 :: real) powr of_int j"
      by (rule le_less_trans)
    then have "e < j" by simp
    then have e'j: "e' + 1 \<le> j" using j by (simp add: e'_def)
    have "e \<le> e'" by (simp add: e'_def)
    have "\<bar>x\<bar> < 2 powr (of_int e' + 1)"
    proof -
      have "(2 :: real) powr (of_int e + 1) \<le> 2 powr (of_int e' + 1)"
        using \<open>e \<le> e'\<close> by simp
      with hi show ?thesis by (rule less_le_trans)
    qed
    also have "\<dots> = 2 ^ 53 * q"
    proof -
      have "(of_int e' + 1 :: real) = 53 + (of_int e' - 52)" by simp
      then show ?thesis
        by (simp only: q_def powr_add) simp
    qed
    finally have "\<bar>x / q\<bar> < 2 ^ 53"
      using qpos by (simp add: abs_mult field_simps)
    then have "- (2 ^ 53) \<le> x / q" and "x / q \<le> 2 ^ 53"
      by linarith+
    then have "of_int (- (2 ^ 53)) \<le> x / q" and "x / q \<le> of_int (2 ^ 53)"
      by simp_all
    then have "round_half_even (of_int (- (2 ^ 53))) \<le> round_half_even (x / q)"
      and "round_half_even (x / q) \<le> round_half_even (of_int (2 ^ 53))"
      by (simp_all only: rhe_mono)
    then have "- (2 ^ 53) \<le> round_half_even (x / q)"
      and "round_half_even (x / q) \<le> 2 ^ 53"
      by (simp_all only: rhe_of_int)
    then have "\<bar>round_half_even (x / q)\<bar> \<le> 2 ^ 53"
      by linarith
    then have "\<bar>of_int (round_half_even (x / q)) :: real\<bar> \<le> 2 ^ 53"
      by (metis of_int_abs of_int_le_iff of_int_numeral of_int_power)
    then have "\<bar>binary64 x\<bar> \<le> 2 ^ 53 * q"
      using qpos by (simp add: b e'_def [symmetric] q_def [symmetric] abs_mult)
    also have "\<dots> = 2 powr (of_int e' + 1)"
    proof -
      have "(of_int e' + 1 :: real) = 53 + (of_int e' - 52)" by simp
      then show ?thesis
        by (simp only: q_def powr_add) simp
    qed
    also have "\<dots> \<le> 2 powr of_int j"
    proof -
      have "(of_int e' + 1 :: real) \<le> of_int j"
        using e'j by linarith
      then show ?thesis by simp
    qed
    finally show ?thesis .
  qed
qed

lemma binary64_binade_31:
  assumes "2 ^ 31 \<le> \<bar>x\<bar>" and "\<bar>x\<bar> < 2 ^ 32"
  shows "binary64 x = of_int (round_half_even (x * 2 ^ 21)) / 2 ^ 21"
proof -
  have "2 powr of_int 31 \<le> \<bar>x\<bar>" and "\<bar>x\<bar> < 2 powr (of_int 31 + 1)"
    using assms by simp_all
  then have "binary64 x =
      of_int (round_half_even (x / 2 powr of_int (31 - 52))) * 2 powr of_int (31 - 52)"
    by (rule binary64_binade) simp
  moreover have "(2 :: real) powr of_int (31 - 52) = 1 / 2 ^ 21"
    using two_powr_int [of "- 21"] by simp
  ultimately have "binary64 x =
      of_int (round_half_even (x / (1 / 2 ^ 21))) * (1 / 2 ^ 21)"
    by (simp only:)
  then show ?thesis by simp
qed

lemma binary64_binade_32:
  assumes "2 ^ 32 \<le> \<bar>x\<bar>" and "\<bar>x\<bar> < 2 ^ 33"
  shows "binary64 x = of_int (round_half_even (x * 2 ^ 20)) / 2 ^ 20"
proof -
  have "2 powr of_int 32 \<le> \<bar>x\<bar>" and "\<bar>x\<bar> < 2 powr (of_int 32 + 1)"
    using assms by simp_all
  then have "binary64 x =
      of_int (round_half_even (x / 2 powr of_int (32 - 52))) * 2 powr of_int (32 - 52)"
    by (rule binary64_binade) simp
  moreover have "(2 :: real) powr of_int (32 - 52) = 1 / 2 ^ 20"
    using two_powr_int [of "- 20"] by simp
  ultimately have "binary64 x =
      of_int (round_half_even (x / (1 / 2 ^ 20))) * (1 / 2 ^ 20)"
    by (simp only:)
  then show ?thesis by simp
qed

lemma binary64_above_bound:
  assumes "0 \<le> s" and "s \<le> 1 / 2 ^ 22"
  shows "binary64 (2 ^ 32 + s) = 2 ^ 32" and "binary64 (- (2 ^ 32) - s) = - (2 ^ 32)"
proof -
  have "round_half_even ((2 ^ 32 + s) * 2 ^ 20) = 2 ^ 52"
    using assms by (intro rhe_below_half) simp_all
  moreover have "binary64 (2 ^ 32 + s) = of_int (round_half_even ((2 ^ 32 + s) * 2 ^ 20)) / 2 ^ 20"
    using assms by (intro binary64_binade_32) simp_all
  ultimately show "binary64 (2 ^ 32 + s) = 2 ^ 32" by simp
  have "round_half_even ((- (2 ^ 32) - s) * 2 ^ 20) = (- (2 ^ 52) - 1) + 1"
    using assms by (intro rhe_above_half) simp_all
  moreover have "binary64 (- (2 ^ 32) - s) =
      of_int (round_half_even ((- (2 ^ 32) - s) * 2 ^ 20)) / 2 ^ 20"
    using assms by (intro binary64_binade_32) simp_all
  ultimately show "binary64 (- (2 ^ 32) - s) = - (2 ^ 32)" by simp
qed

lemma binary64_tie_below_bound: "binary64 (2 ^ 32 - 1 / 2 ^ 22) = 2 ^ 32"
proof -
  have "(2 ^ 32 - 1 / 2 ^ 22) * 2 ^ 21 = (of_int (2 ^ 53 - 1) + 1 / 2 :: real)"
    by simp
  then have "round_half_even ((2 ^ 32 - 1 / 2 ^ 22) * 2 ^ 21) = 2 ^ 53"
    by (simp only: rhe_tie) simp
  moreover have "binary64 (2 ^ 32 - 1 / 2 ^ 22) =
      of_int (round_half_even ((2 ^ 32 - 1 / 2 ^ 22) * 2 ^ 21)) / 2 ^ 21"
    by (intro binary64_binade_31) simp_all
  ultimately show ?thesis by simp
qed

lemma binary64_below_bound:
  assumes "0 < s" and "s \<le> 1 / 2 ^ 23"
  shows "binary64 (2 ^ 32 - s) = 2 ^ 32"
proof -
  have "round_half_even ((2 ^ 32 - s) * 2 ^ 21) = (2 ^ 53 - 1) + 1"
    using assms by (intro rhe_above_half) simp_all
  moreover have "binary64 (2 ^ 32 - s) = of_int (round_half_even ((2 ^ 32 - s) * 2 ^ 21)) / 2 ^ 21"
    using assms by (intro binary64_binade_31) simp_all
  ultimately show ?thesis by simp
qed

lemma binary64_abs_le_bound:
  assumes "\<bar>x\<bar> \<le> 2 ^ 32 + 1 / 2 ^ 22"
  shows "\<bar>binary64 x\<bar> \<le> 2 ^ 32"
proof -
  consider "\<bar>x\<bar> \<le> 2 ^ 32" | "2 ^ 32 < x" | "x < - (2 ^ 32)"
    by linarith
  then show ?thesis
  proof cases
    case 1
    then have "\<bar>x\<bar> \<le> 2 powr of_int 32" by simp
    then have "\<bar>binary64 x\<bar> \<le> 2 powr of_int 32"
      by (rule binary64_abs_le) simp
    then show ?thesis by simp
  next
    case 2
    with assms have "binary64 (2 ^ 32 + (x - 2 ^ 32)) = 2 ^ 32"
      by (intro binary64_above_bound) simp_all
    then show ?thesis by simp
  next
    case 3
    with assms have "binary64 (- (2 ^ 32) - (- x - 2 ^ 32)) = - (2 ^ 32)"
      by (intro binary64_above_bound) simp_all
    then show ?thesis by simp
  qed
qed

section \<open>Properties of the loop in binary64\<close>

lemma loop_body_b64_Inr:
  "orc (current_value st) eps os = (Inr r, os') \<Longrightarrow>
   loop_body_b64 orc eps t st os =
     (Inr \<lparr>current_value = (if r > t then binary64 (current_value st + step_size st)
                             else binary64 (current_value st - step_size st)),
           step_size = binary64 (step_size st / 2)\<rparr>, os')"
  by (simp add: loop_body_b64_def)

lemma loop_body_b64_Inl:
  "orc (current_value st) eps os = (Inl e, os') \<Longrightarrow>
   loop_body_b64 orc eps t st os = (Inl e, os')"
  by (simp add: loop_body_b64_def)

lemma loop_body_b64_cases:
  obtains (raises) e os' where "orc (current_value st) eps os = (Inl e, os')"
    and "loop_body_b64 orc eps t st os = (Inl e, os')"
  | (answers) r os' where "orc (current_value st) eps os = (Inr r, os')"
    and "loop_body_b64 orc eps t st os =
      (Inr \<lparr>current_value = (if r > t then binary64 (current_value st + step_size st)
                              else binary64 (current_value st - step_size st)),
            step_size = binary64 (step_size st / 2)\<rparr>, os')"
proof (cases "orc (current_value st) eps os")
  case (Pair res os')
  then show ?thesis
    by (cases res) (auto intro: raises answers simp: loop_body_b64_Inl loop_body_b64_Inr)
qed

lemma for_range_b64_add:
  "for_range_b64 (n + m) orc eps t st os =
     (case for_range_b64 n orc eps t st os of
        (Inl e, os') \<Rightarrow> (Inl e, os')
      | (Inr st', os') \<Rightarrow> for_range_b64 m orc eps t st' os')"
proof (induction n arbitrary: st os)
  case 0
  show ?case by simp
next
  case (Suc n)
  show ?case
  proof (cases rule: loop_body_b64_cases [of orc st eps os t])
    case (raises e os')
    then show ?thesis by simp
  next
    case (answers r os')
    then show ?thesis using Suc.IH by simp
  qed
qed

lemma for_range_b64_one:
  "for_range_b64 (Suc 0) orc eps t st os = loop_body_b64 orc eps t st os"
  by (simp split: prod.splits sum.splits)

lemma for_range_b64_Suc_end:
  "for_range_b64 (Suc n) orc eps t st os =
     (case for_range_b64 n orc eps t st os of
        (Inl e, os') \<Rightarrow> (Inl e, os')
      | (Inr st', os') \<Rightarrow> loop_body_b64 orc eps t st' os')"
  using for_range_b64_add [of n "Suc 0" orc eps t st os]
  by (simp only: for_range_b64_one Nat.add_Suc_right Nat.add_0_right)

lemma for_range_b64_prefix:
  assumes "for_range_b64 n orc eps t st os = (Inr st', os')" and "m \<le> n"
  shows "\<exists>st1 os1. for_range_b64 m orc eps t st os = (Inr st1, os1) \<and>
    for_range_b64 (n - m) orc eps t st1 os1 = (Inr st', os')"
proof -
  have "for_range_b64 (m + (n - m)) orc eps t st os = (Inr st', os')"
    using assms by simp
  then show ?thesis
    by (simp only: for_range_b64_add) (auto split: prod.splits sum.splits)
qed

text \<open>
  On the grid every sum, difference and halving of the first 53 rounds is a float: the
  binary64 body is the exact body there.
\<close>

lemma pow2_div_as_powr: "(2 :: real) ^ a / 2 ^ b = 2 powr of_int (int a - int b)"
proof -
  have "(2 :: real) powr of_int (int a - int b) = 2 powr (real a - real b)"
    by simp
  also have "\<dots> = 2 powr real a / 2 powr real b"
    by (rule powr_diff)
  also have "\<dots> = 2 ^ a / 2 ^ b"
    by (simp add: powr_realpow)
  finally show ?thesis by simp
qed

lemma on_grid_exact:
  assumes "on_grid i st" and "i < 53"
  shows "binary64 (current_value st + step_size st) = current_value st + step_size st"
    and "binary64 (current_value st - step_size st) = current_value st - step_size st"
    and "binary64 (step_size st / 2) = step_size st / 2"
    and "on_grid (Suc i) \<lparr>current_value = current_value st + step_size st,
                           step_size = step_size st / 2\<rparr>"
    and "on_grid (Suc i) \<lparr>current_value = current_value st - step_size st,
                           step_size = step_size st / 2\<rparr>"
proof -
  from assms(1) obtain N :: int where s: "step_size st = 2 ^ 31 / 2 ^ i"
    and N: "\<bar>N\<bar> < 2 ^ i" and c: "current_value st = of_int N * (2 ^ 32 / 2 ^ i)"
    unfolding on_grid_def by blast
  have small: "(2 :: int) ^ Suc i \<le> 2 ^ 53"
    using assms(2) by (intro power_increasing) simp_all
  have up: "current_value st + step_size st = of_int (2 * N + 1) * (2 ^ 32 / 2 ^ Suc i)"
    and down: "current_value st - step_size st = of_int (2 * N - 1) * (2 ^ 32 / 2 ^ Suc i)"
    and half: "step_size st / 2 = 2 ^ 31 / 2 ^ Suc i"
    by (simp_all add: s c field_simps)
  have Nup: "\<bar>2 * N + 1\<bar> < 2 ^ Suc i" and Ndown: "\<bar>2 * N - 1\<bar> < 2 ^ Suc i"
    using N by simp_all
  have j: "- 1074 \<le> int 32 - int (Suc i)" and j': "- 1074 \<le> int 31 - int (Suc i)"
    using assms(2) by simp_all
  have upr: "current_value st + step_size st =
      of_int (2 * N + 1) * 2 powr of_int (int 32 - int (Suc i))"
    and downr: "current_value st - step_size st =
      of_int (2 * N - 1) * 2 powr of_int (int 32 - int (Suc i))"
    and halfr: "step_size st / 2 = of_int 1 * 2 powr of_int (int 31 - int (Suc i))"
    by (simp_all only: up down half pow2_div_as_powr of_int_1 mult_1)
  have Nup': "\<bar>2 * N + 1\<bar> < 2 ^ 53" and Ndown': "\<bar>2 * N - 1\<bar> < 2 ^ 53"
    using Nup Ndown small by linarith+
  have one: "\<bar>1 :: int\<bar> < 2 ^ 53"
    by simp
  show "binary64 (current_value st + step_size st) = current_value st + step_size st"
    using upr Nup' j by (rule binary64_exact)
  show "binary64 (current_value st - step_size st) = current_value st - step_size st"
    using downr Ndown' j by (rule binary64_exact)
  show "binary64 (step_size st / 2) = step_size st / 2"
    using halfr one j' by (rule binary64_exact)
  show "on_grid (Suc i) \<lparr>current_value = current_value st + step_size st,
                           step_size = step_size st / 2\<rparr>"
    unfolding on_grid_def using Nup up half by auto
  show "on_grid (Suc i) \<lparr>current_value = current_value st - step_size st,
                           step_size = step_size st / 2\<rparr>"
    unfolding on_grid_def using Ndown down half by auto
qed

lemma loop_body_b64_on_grid:
  assumes "on_grid i st" and "i < 53"
  shows "loop_body_b64 orc eps t st os = loop_body orc eps t st os"
  by (simp add: loop_body_b64_def loop_body_def on_grid_exact(1-3) [OF assms]
      split: prod.splits sum.splits)

lemma loop_body_on_grid:
  assumes "on_grid i st" and "i < 53" and "loop_body orc eps t st os = (Inr st', os')"
  shows "on_grid (Suc i) st'"
proof (cases rule: loop_body_cases [of orc st eps os t])
  case (raises e os1)
  with assms(3) show ?thesis by simp
next
  case (answers r os1)
  with assms(3) have "st' = \<lparr>current_value = (if r > t then current_value st + step_size st
                              else current_value st - step_size st),
            step_size = step_size st / 2\<rparr>"
    by simp
  then show ?thesis
    using on_grid_exact(4,5) [OF assms(1,2)] by (simp split: if_splits)
qed

lemma for_range_b64_on_grid:
  "on_grid i st \<Longrightarrow> i + n \<le> 53 \<Longrightarrow>
   for_range_b64 n orc eps t st os = for_range n orc eps t st os"
proof (induction n arbitrary: i st os)
  case 0
  show ?case by simp
next
  case (Suc n)
  have i: "i < 53" using Suc.prems(2) by simp
  have body: "loop_body_b64 orc eps t st os = loop_body orc eps t st os"
    using Suc.prems(1) i by (rule loop_body_b64_on_grid)
  show ?case
  proof (cases rule: loop_body_cases [of orc st eps os t])
    case (raises e os')
    then show ?thesis by (simp add: body)
  next
    case (answers r os')
    from answers(2) have "on_grid (Suc i) \<lparr>current_value = (if r > t then current_value st + step_size st
                              else current_value st - step_size st),
            step_size = step_size st / 2\<rparr>"
      by (rule loop_body_on_grid [OF Suc.prems(1) i])
    moreover have "Suc i + n \<le> 53" using Suc.prems(2) by simp
    ultimately show ?thesis
      using answers Suc.IH by (simp add: body)
  qed
qed

lemma for_range_on_grid:
  "on_grid i st \<Longrightarrow> i + n \<le> 53 \<Longrightarrow> for_range n orc eps t st os = (Inr st', os') \<Longrightarrow>
   on_grid (i + n) st'"
proof (induction n arbitrary: i st os)
  case 0
  then show ?case by simp
next
  case (Suc n)
  have i: "i < 53" using Suc.prems(2) by simp
  from Suc.prems(3) obtain st1 os1 where body: "loop_body orc eps t st os = (Inr st1, os1)"
    and rest: "for_range n orc eps t st1 os1 = (Inr st', os')"
    by (cases rule: loop_body_cases [of orc st eps os t]) auto
  have "on_grid (Suc i) st1"
    using Suc.prems(1) i body by (rule loop_body_on_grid)
  moreover have "Suc i + n \<le> 53" using Suc.prems(2) by simp
  ultimately have "on_grid (Suc i + n) st'"
    using rest by (rule Suc.IH)
  then show ?case by simp
qed

lemma initial_state_b64_notebook:
  "initial_state_b64 LOWER_BOUND UPPER_BOUND = initial_state LOWER_BOUND UPPER_BOUND"
proof -
  have "(2 ^ 32 - - (2 ^ 32) :: real) = of_int 1 * 2 powr of_int 33"
    by simp
  then have "binary64 (2 ^ 32 - - (2 ^ 32)) = (2 ^ 32 - - (2 ^ 32) :: real)"
    by (rule binary64_exact) simp_all
  moreover have "(2 ^ 32 - - (2 ^ 32) :: real) / 4 = of_int 1 * 2 powr of_int 31"
    by simp
  then have "binary64 ((2 ^ 32 - - (2 ^ 32)) / 4) = ((2 ^ 32 - - (2 ^ 32)) / 4 :: real)"
    by (rule binary64_exact) simp_all
  ultimately show ?thesis
    by (simp only: initial_state_b64_def initial_state_def LOWER_BOUND_def UPPER_BOUND_def)
qed

lemma on_grid_initial: "on_grid 0 (initial_state LOWER_BOUND UPPER_BOUND)"
  by (simp add: on_grid_def initial_state_notebook)

lemma EstimateMax_b64_exact:
  assumes "k \<le> 53"
  shows "EstimateMax_b64 LOWER_BOUND UPPER_BOUND k eps t orc os =
    EstimateMax LOWER_BOUND UPPER_BOUND k eps t orc os"
proof -
  have "0 + nat k \<le> 53" using assms by simp
  with on_grid_initial show ?thesis
    unfolding EstimateMax_b64_def EstimateMax_def initial_state_b64_notebook
    by (rule for_range_b64_on_grid)
qed

lemma on_grid_inside:
  assumes "on_grid i st"
  shows "\<bar>current_value st\<bar> < 2 ^ 32" and "0 < step_size st"
proof -
  from assms obtain N :: int where s: "step_size st = 2 ^ 31 / 2 ^ i"
    and N: "\<bar>N\<bar> < 2 ^ i" and c: "current_value st = of_int N * (2 ^ 32 / 2 ^ i)"
    unfolding on_grid_def by blast
  show "0 < step_size st" by (simp add: s)
  have "(of_int \<bar>N\<bar> :: real) < of_int (2 ^ i)" using N by (simp only: of_int_less_iff)
  then have "\<bar>of_int N :: real\<bar> < 2 ^ i" by simp
  then have "\<bar>of_int N :: real\<bar> * (2 ^ 32 / 2 ^ i) < 2 ^ i * (2 ^ 32 / 2 ^ i)"
    by (intro mult_strict_right_mono) simp_all
  then show "\<bar>current_value st\<bar> < 2 ^ 32"
    by (simp add: c abs_mult)
qed

text \<open>
  From round 54 on the step is at most \<open>2^-22\<close>, half a unit in the last place of
  the floats just below \<open>2^32\<close>: a sum that leaves the domain is rounded back onto
  its bound.
\<close>

lemma loop_body_b64_in_bounds:
  assumes "\<bar>current_value st\<bar> \<le> 2 ^ 32" and "0 \<le> step_size st" and "step_size st \<le> 1 / 2 ^ 22"
    and "loop_body_b64 orc eps t st os = (Inr st', os')"
  shows "\<bar>current_value st'\<bar> \<le> 2 ^ 32 \<and> 0 \<le> step_size st' \<and> step_size st' \<le> 1 / 2 ^ 22"
proof -
  have up: "\<bar>binary64 (current_value st + step_size st)\<bar> \<le> 2 ^ 32"
    and down: "\<bar>binary64 (current_value st - step_size st)\<bar> \<le> 2 ^ 32"
    using assms(1-3) by (intro binary64_abs_le_bound; linarith)+
  have h0: "0 \<le> binary64 (step_size st / 2)"
    using assms(2) by (intro binary64_nonneg) simp
  have "\<bar>step_size st / 2\<bar> \<le> 2 powr of_int (- 22)"
    using assms(2,3) two_powr_int [of "- 22"] by simp
  then have "\<bar>binary64 (step_size st / 2)\<bar> \<le> 2 powr of_int (- 22)"
    by (rule binary64_abs_le) simp
  then have h1: "binary64 (step_size st / 2) \<le> 1 / 2 ^ 22"
    using two_powr_int [of "- 22"] by simp
  from assms(4) show ?thesis
    by (cases rule: loop_body_b64_cases [of orc st eps os t]) (use up down h0 h1 in auto)
qed

lemma for_range_b64_in_bounds:
  "\<bar>current_value st\<bar> \<le> 2 ^ 32 \<Longrightarrow> 0 \<le> step_size st \<Longrightarrow> step_size st \<le> 1 / 2 ^ 22 \<Longrightarrow>
   for_range_b64 n orc eps t st os = (Inr st', os') \<Longrightarrow>
   \<bar>current_value st'\<bar> \<le> 2 ^ 32 \<and> 0 \<le> step_size st' \<and> step_size st' \<le> 1 / 2 ^ 22"
proof (induction n arbitrary: st os)
  case 0
  then show ?case by simp
next
  case (Suc n)
  from Suc.prems(4) obtain st1 os1 where body: "loop_body_b64 orc eps t st os = (Inr st1, os1)"
    and rest: "for_range_b64 n orc eps t st1 os1 = (Inr st', os')"
    by (cases rule: loop_body_b64_cases [of orc st eps os t]) auto
  from loop_body_b64_in_bounds [OF Suc.prems(1-3) body] rest Suc.IH show ?case
    by blast
qed

text \<open>The float \<^verbatim>\<open>0.02\<close> lies in \<open>[0, 1)\<close>.\<close>

lemma threshold_b64_nonneg: "0 \<le> binary64 0.02"
  by (rule binary64_nonneg) simp

lemma threshold_b64_less_1: "binary64 0.02 < 1"
proof -
  have "\<bar>0.02 :: real\<bar> \<le> 2 powr of_int (- 5)"
    using two_powr_int [of "- 5"] by simp
  then have "\<bar>binary64 0.02\<bar> \<le> 2 powr of_int (- 5)"
    by (rule binary64_abs_le) simp
  then show ?thesis
    using two_powr_int [of "- 5"] by simp
qed

text \<open>The exact run when every answer is above the threshold.\<close>

lemma for_range_answers_above:
  fixes a :: "nat \<Rightarrow> real"
  defines "orc \<equiv> (scripted (\<lambda>i. Inr (a i)) :: ('e, nat) noisy_compare)"
  shows "\<forall>i<n. t < a (j + i) \<Longrightarrow>
   for_range n orc eps t \<lparr>current_value = c, step_size = s\<rparr> j =
     (Inr \<lparr>current_value = c + 2 * s - 2 * s / 2 ^ n, step_size = s / 2 ^ n\<rparr>, j + n)"
proof (induction n arbitrary: c s j)
  case 0
  show ?case by simp
next
  case (Suc n)
  from Suc.prems have "t < a j"
    by (metis add.right_neutral zero_less_Suc)
  then have body: "loop_body orc eps t \<lparr>current_value = c, step_size = s\<rparr> j =
      (Inr \<lparr>current_value = c + s, step_size = s / 2\<rparr>, Suc j)"
    by (simp add: loop_body_def scripted_def orc_def)
  have "\<forall>i<n. t < a (Suc j + i)"
    using Suc.prems by (metis Suc_less_eq add_Suc_shift)
  then have ih: "for_range n orc eps t
      \<lparr>current_value = c + s, step_size = s / 2\<rparr> (Suc j) =
      (Inr \<lparr>current_value = c + s + 2 * (s / 2) - 2 * (s / 2) / 2 ^ n,
             step_size = s / 2 / 2 ^ n\<rparr>, Suc j + n)"
    by (rule Suc.IH)
  have eq: "\<lparr>current_value = c + s + 2 * (s / 2) - 2 * (s / 2) / 2 ^ n,
             step_size = s / 2 / 2 ^ n\<rparr> =
      \<lparr>current_value = c + 2 * s - 2 * s / 2 ^ Suc n, step_size = s / 2 ^ Suc n\<rparr>"
    by (simp add: field_simps)
  show ?case
    by (simp only: for_range.simps body prod.case sum.case ih eq) simp
qed

lemma for_range_b64_at_upper:
  fixes a :: "nat \<Rightarrow> real"
  defines "orc \<equiv> (scripted (\<lambda>i. Inr (a i)) :: ('e, nat) noisy_compare)"
  shows "\<forall>i<m. t < a (j + i) \<Longrightarrow> 54 \<le> n \<Longrightarrow> n + m \<le> 1105 \<Longrightarrow>
   for_range_b64 m orc eps t \<lparr>current_value = 2 ^ 32, step_size = 2 ^ 31 / 2 ^ n\<rparr> j =
     (Inr \<lparr>current_value = 2 ^ 32, step_size = 2 ^ 31 / 2 ^ (n + m)\<rparr>, j + m)"
proof (induction m arbitrary: n j)
  case 0
  show ?case by simp
next
  case (Suc m)
  from Suc.prems(1) have "t < a j"
    by (metis add.right_neutral zero_less_Suc)
  have "(2 :: real) ^ 31 / 2 ^ n \<le> 2 ^ 31 / 2 ^ 54"
    using Suc.prems(2) by (intro divide_left_mono power_increasing) simp_all
  then have small: "(2 :: real) ^ 31 / 2 ^ n \<le> 1 / 2 ^ 22"
    by simp
  have stay: "binary64 (2 ^ 32 + 2 ^ 31 / 2 ^ n) = 2 ^ 32"
    using small by (intro binary64_above_bound) simp_all
  have h1: "(2 :: real) ^ 31 / 2 ^ n / 2 = 2 ^ 31 / 2 ^ Suc n"
    by simp
  have h2: "(2 :: real) ^ 31 / 2 ^ Suc n = of_int 1 * 2 powr of_int (int 31 - int (Suc n))"
    by (simp only: pow2_div_as_powr of_int_1 mult_1)
  have "\<bar>1 :: int\<bar> < 2 ^ 53" and "- 1074 \<le> int 31 - int (Suc n)"
    using Suc.prems(3) by simp_all
  with h2 have "binary64 (2 ^ 31 / 2 ^ Suc n) = 2 ^ 31 / 2 ^ Suc n"
    by (rule binary64_exact)
  then have half: "binary64 (2 ^ 31 / 2 ^ n / 2) = 2 ^ 31 / 2 ^ Suc n"
    by (simp only: h1)
  let ?st = "\<lparr>current_value = 2 ^ 32, step_size = 2 ^ 31 / 2 ^ n :: real\<rparr>"
  have "orc (current_value ?st) eps j = (Inr (a j), Suc j)"
    by (simp add: orc_def scripted_def)
  then have "loop_body_b64 orc eps t ?st j =
      (Inr \<lparr>current_value = (if a j > t then binary64 (current_value ?st + step_size ?st)
                              else binary64 (current_value ?st - step_size ?st)),
             step_size = binary64 (step_size ?st / 2)\<rparr>, Suc j)"
    by (rule loop_body_b64_Inr)
  then have body: "loop_body_b64 orc eps t ?st j =
      (Inr \<lparr>current_value = 2 ^ 32, step_size = 2 ^ 31 / 2 ^ Suc n\<rparr>, Suc j)"
    using \<open>t < a j\<close> by (simp only: search_state.select_convs if_True stay half)
  have "\<forall>i<m. t < a (Suc j + i)"
    using Suc.prems(1) by (metis Suc_less_eq add_Suc_shift)
  moreover have "54 \<le> Suc n" and "Suc n + m \<le> 1105"
    using Suc.prems(2,3) by simp_all
  ultimately have "for_range_b64 m orc eps t
       \<lparr>current_value = 2 ^ 32, step_size = 2 ^ 31 / 2 ^ Suc n\<rparr> (Suc j) =
     (Inr \<lparr>current_value = 2 ^ 32, step_size = 2 ^ 31 / 2 ^ (Suc n + m)\<rparr>, Suc j + m)"
    by (rule Suc.IH)
  then show ?case
    by (simp only: for_range_b64.simps body prod.case sum.case) simp
qed

text \<open>
  The run on the notebook's domain when every answer is above the threshold: exact for
  53 rounds, up to \<open>2^32 - 2^-21\<close>; in round 54 the sum \<open>2^32 - 2^-21 + 2^-22\<close> is
  a tie and rounds to \<open>2^32\<close>; every later step is absorbed there.
\<close>

lemma EstimateMax_b64_answers_above:
  fixes a :: "nat \<Rightarrow> real"
  defines "orc \<equiv> (scripted (\<lambda>i. Inr (a i)) :: ('e, nat) noisy_compare)"
  assumes "\<forall>i<54 + m. t < a i" and "54 + m \<le> 1105"
  shows "EstimateMax_b64 LOWER_BOUND UPPER_BOUND (int (54 + m)) eps t orc 0 =
    (Inr \<lparr>current_value = 2 ^ 32, step_size = 2 ^ 31 / 2 ^ (54 + m)\<rparr>, 54 + m)"
proof -
  let ?st0 = "initial_state LOWER_BOUND UPPER_BOUND"
  let ?st53 = "\<lparr>current_value = 2 ^ 32 - 1 / 2 ^ 21, step_size = 1 / 2 ^ 22 :: real\<rparr>"
  let ?st54 = "\<lparr>current_value = 2 ^ 32, step_size = 2 ^ 31 / 2 ^ 54 :: real\<rparr>"
  have above: "\<forall>i<53. t < a (0 + i)" and a53: "t < a 53" and rest: "\<forall>i<m. t < a (54 + i)"
    using assms(2) by simp_all
  have "for_range 53 orc eps t \<lparr>current_value = 0, step_size = 2147483648\<rparr> 0 =
      (Inr \<lparr>current_value = 0 + 2 * 2147483648 - 2 * 2147483648 / 2 ^ 53,
             step_size = 2147483648 / 2 ^ 53\<rparr>, 0 + 53)"
    unfolding orc_def using above by (rule for_range_answers_above)
  then have exact: "for_range 53 orc eps t ?st0 0 = (Inr ?st53, 53)"
    by (simp add: initial_state_notebook)
  have "for_range_b64 53 orc eps t ?st0 0 = for_range 53 orc eps t ?st0 0"
    using on_grid_initial by (rule for_range_b64_on_grid) simp
  with exact have r53: "for_range_b64 53 orc eps t ?st0 0 = (Inr ?st53, 53)"
    by (simp only:)
  have tie: "binary64 (2 ^ 32 - 1 / 2 ^ 21 + 1 / 2 ^ 22) = 2 ^ 32"
    using binary64_tie_below_bound by simp
  have "(1 / 2 ^ 22 / 2 :: real) = of_int 1 * 2 powr of_int (- 23)"
    using two_powr_int [of "- 23"] by simp
  then have "binary64 (1 / 2 ^ 22 / 2) = (1 / 2 ^ 22 / 2 :: real)"
    by (rule binary64_exact) simp_all
  then have half: "binary64 (1 / 2 ^ 22 / 2) = 2 ^ 31 / 2 ^ 54"
    by simp
  have "orc (current_value ?st53) eps 53 = (Inr (a 53), 54)"
    by (simp add: orc_def scripted_def)
  then have "loop_body_b64 orc eps t ?st53 53 =
      (Inr \<lparr>current_value = (if a 53 > t then binary64 (current_value ?st53 + step_size ?st53)
                              else binary64 (current_value ?st53 - step_size ?st53)),
             step_size = binary64 (step_size ?st53 / 2)\<rparr>, 54)"
    by (rule loop_body_b64_Inr)
  then have body: "loop_body_b64 orc eps t ?st53 53 = (Inr ?st54, 54)"
    using a53 by (simp only: search_state.select_convs if_True tie half)
  have r54: "for_range_b64 54 orc eps t ?st0 0 = (Inr ?st54, 54)"
    using for_range_b64_Suc_end [of 53 orc eps t ?st0 0] r53 body by simp
  have "for_range_b64 m orc eps t ?st54 54 =
      (Inr \<lparr>current_value = 2 ^ 32, step_size = 2 ^ 31 / 2 ^ (54 + m)\<rparr>, 54 + m)"
    unfolding orc_def using rest _ assms(3) by (rule for_range_b64_at_upper) simp
  with r54 have "for_range_b64 (54 + m) orc eps t ?st0 0 =
      (Inr \<lparr>current_value = 2 ^ 32, step_size = 2 ^ 31 / 2 ^ (54 + m)\<rparr>, 54 + m)"
    by (simp only: for_range_b64_add prod.case sum.case)
  then show ?thesis
    by (simp only: EstimateMax_b64_def initial_state_b64_notebook nat_int)
qed

section \<open>The claims\<close>

text \<open>
  C1. Against an oracle that answers every call, whatever it answers, a run with
  \<open>k\<close> rounds returns a state (it does not fail and does not stop early), has made
  exactly \<open>k\<close> oracle calls when it returns (\<open>nat k\<close>, so none for \<open>k \<le> 0\<close>), and the
  state it returns has been through exactly \<open>k\<close> halvings of the step. The counter is
  the one of the instrumented oracle; instrumenting does not change the result. No bound
  on the domain or on \<open>k\<close> is needed.
\<close>

theorem EstimateMax_invokes_oracle_exactly_k_times:
  fixes f :: "real \<Rightarrow> real \<Rightarrow> 'o \<Rightarrow> real \<times> 'o"
  defines "orc \<equiv> (answering f :: ('e, 'o) noisy_compare)"
  shows "\<exists>st os'.
     EstimateMax lower upper k eps t orc os = (Inr st, os') \<and>
     EstimateMax lower upper k eps t (counting orc) (0, os) = (Inr st, (nat k, os')) \<and>
     step_size st = (upper - lower) / 4 / 2 ^ nat k"
proof -
  obtain st os' where
    run: "for_range (nat k) orc eps t (initial_state lower upper) os = (Inr st, os')"
    unfolding orc_def
    using for_range_answering [of "nat k" f eps t "initial_state lower upper" os] by auto
  have "step_size st = step_size (initial_state lower upper) / 2 ^ nat k"
    by (rule for_range_step_size [OF run])
  with run for_range_counting_Inr [OF run, of 0] show ?thesis
    by (simp add: EstimateMax_def initial_state_def)
qed



text \<open>
  C3. The resolution of the final estimate, for the cell in binary64 on the notebook's
  domain \<open>[-2^32, 2^32]\<close>. For a completed run of \<open>k\<close> rounds with \<open>1 \<le> k \<le> 53\<close>,
  whatever the oracle answered:
  \<^item> the last round moved the estimate by exactly \<open>(upper - lower) / 2^(k+1)\<close>;
  \<^item> a run against the same oracle with further rounds, up to 53 in all, ends within
    \<open>(upper - lower) / 2^(k+1)\<close> of this estimate.

  The bound \<open>k \<le> 53\<close> is needed: a float near \<open>2^32\<close> has 53 significant bits and
  cannot carry a resolution below \<open>2^-21\<close>.
\<close>

theorem b64_final_precision_up_to_53_rounds:
  assumes "1 \<le> k" and "k \<le> 53"
    and "EstimateMax_b64 LOWER_BOUND UPPER_BOUND k eps t orc os = (Inr st, os')"
  shows "(\<exists>st0 os0. EstimateMax_b64 LOWER_BOUND UPPER_BOUND (k - 1) eps t orc os = (Inr st0, os0) \<and>
       \<bar>current_value st - current_value st0\<bar> = (UPPER_BOUND - LOWER_BOUND) / 2 ^ (nat k + 1)) \<and>
    (\<forall>m st2 os2. k + int m \<le> 53 \<longrightarrow>
       EstimateMax_b64 LOWER_BOUND UPPER_BOUND (k + int m) eps t orc os = (Inr st2, os2) \<longrightarrow>
       \<bar>current_value st2 - current_value st\<bar> \<le> (UPPER_BOUND - LOWER_BOUND) / 2 ^ (nat k + 1))"
proof -
  have dom: "LOWER_BOUND \<le> UPPER_BOUND"
    by (simp add: LOWER_BOUND_def UPPER_BOUND_def)
  have "EstimateMax_b64 LOWER_BOUND UPPER_BOUND k eps t orc os =
      EstimateMax LOWER_BOUND UPPER_BOUND k eps t orc os"
    using assms(2) by (rule EstimateMax_b64_exact)
  with assms(3) have run: "EstimateMax LOWER_BOUND UPPER_BOUND k eps t orc os = (Inr st, os')"
    by simp
  note ex = exact_final_precision [OF dom assms(1) run]
  have k1: "k - 1 \<le> 53"
    using assms(2) by simp
  from ex have "\<exists>st0 os0.
      EstimateMax_b64 LOWER_BOUND UPPER_BOUND (k - 1) eps t orc os = (Inr st0, os0) \<and>
      \<bar>current_value st - current_value st0\<bar> = (UPPER_BOUND - LOWER_BOUND) / 2 ^ (nat k + 1)"
    using EstimateMax_b64_exact [OF k1, of eps t orc os] by auto
  moreover have "\<bar>current_value st2 - current_value st\<bar>
      \<le> (UPPER_BOUND - LOWER_BOUND) / 2 ^ (nat k + 1)"
    if "k + int m \<le> 53"
      and "EstimateMax_b64 LOWER_BOUND UPPER_BOUND (k + int m) eps t orc os = (Inr st2, os2)"
    for m st2 os2
  proof -
    have "EstimateMax_b64 LOWER_BOUND UPPER_BOUND (k + int m) eps t orc os =
        EstimateMax LOWER_BOUND UPPER_BOUND (k + int m) eps t orc os"
      using that(1) by (rule EstimateMax_b64_exact)
    with that(2)
    have "EstimateMax LOWER_BOUND UPPER_BOUND (k + int m) eps t orc os = (Inr st2, os2)"
      by simp
    with ex show ?thesis by blast
  qed
  ultimately show ?thesis
    by blast
qed

text \<open>
  Two rounds with the answer 1 every time: the second round moved the estimate from
  \<open>2^31\<close> to \<open>2^31 + 2^30\<close>, by \<open>2^33 / 2^3\<close>, and a third round moves it on by
  \<open>2^29\<close>, less than that.
\<close>

theorem b64_final_precision_two_rounds:
  "\<exists>st. EstimateMax_b64 LOWER_BOUND UPPER_BOUND 2 0.02 0.02
          (scripted (\<lambda>i. Inr 1) :: (error, nat) noisy_compare) 0 = (Inr st, 2) \<and>
        (\<exists>st0 os0. EstimateMax_b64 LOWER_BOUND UPPER_BOUND 1 0.02 0.02
          (scripted (\<lambda>i. Inr 1) :: (error, nat) noisy_compare) 0 = (Inr st0, os0) \<and>
          \<bar>current_value st - current_value st0\<bar> = (UPPER_BOUND - LOWER_BOUND) / 2 ^ 3) \<and>
        (\<exists>st2 os2. EstimateMax_b64 LOWER_BOUND UPPER_BOUND 3 0.02 0.02
          (scripted (\<lambda>i. Inr 1) :: (error, nat) noisy_compare) 0 = (Inr st2, os2) \<and>
          \<bar>current_value st2 - current_value st\<bar> \<le> (UPPER_BOUND - LOWER_BOUND) / 2 ^ 3)"
proof -
  let ?orc = "scripted (\<lambda>i. Inr 1) :: (error, nat) noisy_compare"
  let ?st = "\<lparr>current_value = 3221225472, step_size = 536870912 :: real\<rparr>"
  let ?st2 = "\<lparr>current_value = 3758096384, step_size = 268435456 :: real\<rparr>"
  have k: "(1 :: int) \<le> 2" and k': "(2 :: int) \<le> 53" and k3': "(2 :: int) + int 1 \<le> 53"
    by simp_all
  have "EstimateMax_b64 LOWER_BOUND UPPER_BOUND 2 0.02 0.02 ?orc 0 =
      EstimateMax LOWER_BOUND UPPER_BOUND 2 0.02 0.02 ?orc 0"
    by (rule EstimateMax_b64_exact) simp
  then have run: "EstimateMax_b64 LOWER_BOUND UPPER_BOUND 2 0.02 0.02 ?orc 0 = (Inr ?st, 2)"
    by (simp only: run_two_rounds_up)
  have "EstimateMax_b64 LOWER_BOUND UPPER_BOUND (2 + int 1) 0.02 0.02 ?orc 0 =
      EstimateMax LOWER_BOUND UPPER_BOUND (2 + int 1) 0.02 0.02 ?orc 0"
    by (rule EstimateMax_b64_exact) simp
  moreover have "EstimateMax LOWER_BOUND UPPER_BOUND (2 + int 1) 0.02 0.02 ?orc 0 = (Inr ?st2, 3)"
    using run_three_rounds_up [where 'a = error] by simp
  ultimately have run3:
    "EstimateMax_b64 LOWER_BOUND UPPER_BOUND (2 + int 1) 0.02 0.02 ?orc 0 = (Inr ?st2, 3)"
    by (simp only:)
  note th = b64_final_precision_up_to_53_rounds [OF k k' run]
  have n: "nat 2 + 1 = 3" and k1: "(2 :: int) - 1 = 1" and k3: "2 + int 1 = 3"
    by simp_all
  from th have "\<exists>st0 os0.
      EstimateMax_b64 LOWER_BOUND UPPER_BOUND 1 0.02 0.02 ?orc 0 = (Inr st0, os0) \<and>
      \<bar>current_value ?st - current_value st0\<bar> = (UPPER_BOUND - LOWER_BOUND) / 2 ^ 3"
    unfolding n k1 by (rule conjunct1)
  moreover from th run3 k3'
  have "\<bar>current_value ?st2 - current_value ?st\<bar> \<le> (UPPER_BOUND - LOWER_BOUND) / 2 ^ 3"
    unfolding n by blast
  then have "\<exists>st2 os2. EstimateMax_b64 LOWER_BOUND UPPER_BOUND 3 0.02 0.02 ?orc 0 = (Inr st2, os2) \<and>
      \<bar>current_value st2 - current_value ?st\<bar> \<le> (UPPER_BOUND - LOWER_BOUND) / 2 ^ 3"
    using run3 unfolding k3 by blast
  ultimately show ?thesis
    using run by blast
qed

text \<open>
  Beyond 53 rounds the bound \<open>(upper - lower) / 2^(k+1)\<close> is missed in both
  directions, here with every answer above the threshold \<open>t = 0.02\<close>.
  \<^item> \<open>k = 54\<close>: after 53 rounds the estimate is \<open>2^32 - 2^-21\<close>; round 54 adds the
    step \<open>2^-22\<close>, the sum is a tie and rounds to \<open>2^32\<close>. The last round moved the
    estimate by \<open>2^-21\<close>, twice the bound \<open>2^33 / 2^55 = 2^-22\<close>.
  \<^item> \<open>k = 64\<close>, the cell as the notebook has it: the estimate is \<open>2^32\<close> after 63
    rounds and after 64, so the last round moved it by 0 and not by the bound
    \<open>2^33 / 2^65 = 2^-32\<close>; and the run whose last answer is 0, below the threshold,
    ends on the same estimate: the last answer is not resolved.
\<close>

theorem b64_last_rounds_miss_precision:
  "EstimateMax_b64 LOWER_BOUND UPPER_BOUND 53 (binary64 0.02) (binary64 0.02)
     (scripted (\<lambda>i. Inr 1) :: (error, nat) noisy_compare) 0 =
     (Inr \<lparr>current_value = 4294967296 - 1 / 2 ^ 21, step_size = 1 / 2 ^ 22\<rparr>, 53) \<and>
   EstimateMax_b64 LOWER_BOUND UPPER_BOUND 54 (binary64 0.02) (binary64 0.02)
     (scripted (\<lambda>i. Inr 1) :: (error, nat) noisy_compare) 0 =
     (Inr \<lparr>current_value = 4294967296, step_size = 1 / 2 ^ 23\<rparr>, 54) \<and>
   (UPPER_BOUND - LOWER_BOUND) / 2 ^ (nat 54 + 1) = 1 / 2 ^ 22 \<and>
   EstimateMax_b64 LOWER_BOUND UPPER_BOUND 63 (binary64 0.02) (binary64 0.02)
     (scripted (\<lambda>i. Inr 1) :: (error, nat) noisy_compare) 0 =
     (Inr \<lparr>current_value = 4294967296, step_size = 1 / 2 ^ 32\<rparr>, 63) \<and>
   estimator_cell_b64 (scripted (\<lambda>i. Inr 1) :: (error, nat) noisy_compare) 0 =
     (Inr \<lparr>current_value = 4294967296, step_size = 1 / 2 ^ 33\<rparr>, 64) \<and>
   estimator_cell_b64
     (scripted (\<lambda>i. Inr (if i = 63 then 0 else 1)) :: (error, nat) noisy_compare) 0 =
     (Inr \<lparr>current_value = 4294967296, step_size = 1 / 2 ^ 33\<rparr>, 64) \<and>
   (UPPER_BOUND - LOWER_BOUND) / 2 ^ (nat 64 + 1) = 1 / 2 ^ 32"
proof -
  let ?t = "binary64 0.02"
  let ?A = "scripted (\<lambda>i. Inr 1) :: (error, nat) noisy_compare"
  let ?B = "scripted (\<lambda>i. Inr (if i = 63 then 0 else 1)) :: (error, nat) noisy_compare"
  let ?st63 = "\<lparr>current_value = 2 ^ 32, step_size = 2 ^ 31 / 2 ^ (54 + 9) :: real\<rparr>"
  have aboveA: "\<forall>i<n. ?t < (1 :: real)" for n :: nat
    using threshold_b64_less_1 by blast
  have aboveB: "\<forall>i<54 + (9 :: nat). ?t < (if i = 63 then 0 else (1 :: real))"
    using threshold_b64_less_1 by simp
  have "for_range 53 ?A ?t ?t \<lparr>current_value = 0, step_size = 2147483648\<rparr> 0 =
      (Inr \<lparr>current_value = 0 + 2 * 2147483648 - 2 * 2147483648 / 2 ^ 53,
             step_size = 2147483648 / 2 ^ 53\<rparr>, 0 + 53)"
    using aboveA by (rule for_range_answers_above)
  then have "EstimateMax LOWER_BOUND UPPER_BOUND 53 ?t ?t ?A 0 =
      (Inr \<lparr>current_value = 4294967296 - 1 / 2 ^ 21, step_size = 1 / 2 ^ 22\<rparr>, 53)"
    by (simp add: EstimateMax_def initial_state_notebook)
  moreover have "EstimateMax_b64 LOWER_BOUND UPPER_BOUND 53 ?t ?t ?A 0 =
      EstimateMax LOWER_BOUND UPPER_BOUND 53 ?t ?t ?A 0"
    by (rule EstimateMax_b64_exact) simp
  ultimately have A53: "EstimateMax_b64 LOWER_BOUND UPPER_BOUND 53 ?t ?t ?A 0 =
      (Inr \<lparr>current_value = 4294967296 - 1 / 2 ^ 21, step_size = 1 / 2 ^ 22\<rparr>, 53)"
    by (simp only:)
  have A54: "EstimateMax_b64 LOWER_BOUND UPPER_BOUND (int (54 + 0)) ?t ?t ?A 0 =
      (Inr \<lparr>current_value = 2 ^ 32, step_size = 2 ^ 31 / 2 ^ (54 + 0)\<rparr>, 54 + 0)"
    using aboveA by (rule EstimateMax_b64_answers_above) simp
  have A63: "EstimateMax_b64 LOWER_BOUND UPPER_BOUND (int (54 + 9)) ?t ?t ?A 0 = (Inr ?st63, 54 + 9)"
    using aboveA by (rule EstimateMax_b64_answers_above) simp
  have A64: "EstimateMax_b64 LOWER_BOUND UPPER_BOUND (int (54 + 10)) ?t ?t ?A 0 =
      (Inr \<lparr>current_value = 2 ^ 32, step_size = 2 ^ 31 / 2 ^ (54 + 10)\<rparr>, 54 + 10)"
    using aboveA by (rule EstimateMax_b64_answers_above) simp
  have B63: "EstimateMax_b64 LOWER_BOUND UPPER_BOUND (int (54 + 9)) ?t ?t ?B 0 = (Inr ?st63, 54 + 9)"
    using aboveB by (rule EstimateMax_b64_answers_above) simp
  have down: "binary64 (2 ^ 32 - 2 ^ 31 / 2 ^ (54 + 9)) = 2 ^ 32"
    by (rule binary64_below_bound) simp_all
  have "(2 ^ 31 / 2 ^ (54 + 9) / 2 :: real) = of_int 1 * 2 powr of_int (- 33)"
    using two_powr_int [of "- 33"] by simp
  then have "binary64 (2 ^ 31 / 2 ^ (54 + 9) / 2) = (2 ^ 31 / 2 ^ (54 + 9) / 2 :: real)"
    by (rule binary64_exact) simp_all
  then have half: "binary64 (2 ^ 31 / 2 ^ (54 + 9) / 2) = 1 / 2 ^ 33"
    by simp
  have "?B (current_value ?st63) ?t (54 + 9) = (Inr 0, 64)"
    by (simp add: scripted_def)
  then have "loop_body_b64 ?B ?t ?t ?st63 (54 + 9) =
      (Inr \<lparr>current_value = (if 0 > ?t then binary64 (current_value ?st63 + step_size ?st63)
                              else binary64 (current_value ?st63 - step_size ?st63)),
             step_size = binary64 (step_size ?st63 / 2)\<rparr>, 64)"
    by (rule loop_body_b64_Inr)
  moreover have "\<not> 0 > ?t"
    using threshold_b64_nonneg by simp
  ultimately have body: "loop_body_b64 ?B ?t ?t ?st63 (54 + 9) =
      (Inr \<lparr>current_value = 2 ^ 32, step_size = 1 / 2 ^ 33\<rparr>, 64)"
    by (simp only: search_state.select_convs if_False down half)
  have "for_range_b64 (54 + 9) ?B ?t ?t (initial_state_b64 LOWER_BOUND UPPER_BOUND) 0 =
      (Inr ?st63, 54 + 9)"
    using B63 by (simp only: EstimateMax_b64_def nat_int)
  then have "for_range_b64 (Suc (54 + 9)) ?B ?t ?t (initial_state_b64 LOWER_BOUND UPPER_BOUND) 0 =
      (Inr \<lparr>current_value = 2 ^ 32, step_size = 1 / 2 ^ 33\<rparr>, 64)"
    using body by (simp only: for_range_b64_Suc_end prod.case sum.case)
  then have B64: "EstimateMax_b64 LOWER_BOUND UPPER_BOUND 64 ?t ?t ?B 0 =
      (Inr \<lparr>current_value = 2 ^ 32, step_size = 1 / 2 ^ 33\<rparr>, 64)"
    by (simp add: EstimateMax_b64_def)
  from A53 A54 A63 A64 B64 show ?thesis
    by (simp add: estimator_cell_b64_def LOWER_BOUND_def UPPER_BOUND_def)
qed

text \<open>
  C4, as the code has it. In a completed run of \<open>k\<close> rounds, for every round index
  \<open>i\<close> from 0 to \<open>k - 1\<close>: the step with which round \<open>i\<close> starts, the one it applies,
  is \<open>(upper - lower) / 4 / 2^i\<close>; the step after round \<open>i\<close> is
  \<open>(upper - lower) / 4 / 2^(i+1)\<close>; so each round halves the step.
\<close>

theorem step_size_before_and_after_round:
  assumes "EstimateMax lower upper k eps t orc os = (Inr stk, osk)" and "int i < k"
  shows "\<exists>st os1 st' os2.
     EstimateMax lower upper (int i) eps t orc os = (Inr st, os1) \<and>
     EstimateMax lower upper (int i + 1) eps t orc os = (Inr st', os2) \<and>
     step_size st = (upper - lower) / 4 / 2 ^ i \<and>
     step_size st' = (upper - lower) / 4 / 2 ^ (i + 1) \<and>
     step_size st' = step_size st / 2"
proof -
  let ?st0 = "initial_state lower upper"
  have "Suc i \<le> nat k"
    using assms(2) by simp
  with assms(1) obtain st' os2 where
    run': "for_range (Suc i) orc eps t ?st0 os = (Inr st', os2)"
    unfolding EstimateMax_def by (blast dest: for_range_prefix)
  then obtain st os1 where run: "for_range i orc eps t ?st0 os = (Inr st, os1)"
    by (rule for_range_Suc_InrD)
  have n: "nat (int i + 1) = Suc i"
    by simp
  have e1: "EstimateMax lower upper (int i) eps t orc os = (Inr st, os1)"
    using run by (simp add: EstimateMax_def)
  have e2: "EstimateMax lower upper (int i + 1) eps t orc os = (Inr st', os2)"
    using run' by (simp only: EstimateMax_def n)
  have s1: "step_size st = (upper - lower) / 4 / 2 ^ i"
    using for_range_step_size [OF run] by (simp add: initial_state_def)
  have s2: "step_size st' = (upper - lower) / 4 / 2 ^ (i + 1)"
    using for_range_step_size [OF run'] by (simp add: initial_state_def)
  have s3: "step_size st' = step_size st / 2"
    using s1 s2 by simp
  from e1 e2 s1 s2 s3 show ?thesis
    by blast
qed

text \<open>
  The notebook's domain, two rounds: round 1 starts with the step \<open>2^33 / 4 / 2\<close> and
  leaves \<open>2^33 / 4 / 4\<close>.
\<close>

theorem step_size_round_one:
  "\<exists>st os1 st' os2.
     EstimateMax LOWER_BOUND UPPER_BOUND 1 0.02 0.02
       (scripted (\<lambda>i. Inr 1) :: (error, nat) noisy_compare) 0 = (Inr st, os1) \<and>
     EstimateMax LOWER_BOUND UPPER_BOUND 2 0.02 0.02
       (scripted (\<lambda>i. Inr 1) :: (error, nat) noisy_compare) 0 = (Inr st', os2) \<and>
     step_size st = (UPPER_BOUND - LOWER_BOUND) / 4 / 2 ^ 1 \<and>
     step_size st' = (UPPER_BOUND - LOWER_BOUND) / 4 / 2 ^ 2 \<and>
     step_size st' = step_size st / 2"
proof -
  have i: "int 1 < 2"
    by simp
  have "int 1 = 1" and "int 1 + 1 = 2" and "(1 :: nat) + 1 = 2"
    by simp_all
  with step_size_before_and_after_round [OF run_two_rounds_up i]
  show ?thesis
    by (simp only:)
qed

text \<open>
  The claim as the specification words it fails at round 0 of the notebook's run: after
  round 0 the step is \<open>2^30\<close>, not \<open>2^33 / 4 / 2^0 = 2^31\<close>.
\<close>

theorem step_size_after_round_zero:
  "EstimateMax LOWER_BOUND UPPER_BOUND 1 0.02 0.02
     (scripted (\<lambda>i. Inr 1) :: (error, nat) noisy_compare) 0 =
     (Inr \<lparr>current_value = 2147483648, step_size = 1073741824\<rparr>, 1) \<and>
   (1073741824 :: real) \<noteq> (UPPER_BOUND - LOWER_BOUND) / 4 / 2 ^ 0"
proof (rule conjI)
  show "EstimateMax LOWER_BOUND UPPER_BOUND 1 0.02 0.02
     (scripted (\<lambda>i. Inr 1) :: (error, nat) noisy_compare) 0 =
     (Inr \<lparr>current_value = 2147483648, step_size = 1073741824\<rparr>, 1)"
    by (rule run_one_round_up)
  show "(1073741824 :: real) \<noteq> (UPPER_BOUND - LOWER_BOUND) / 4 / 2 ^ 0"
    by (simp add: LOWER_BOUND_def UPPER_BOUND_def)
qed

text \<open>
  C5. Round \<open>i\<close> of a run of the cell in binary64: when the first \<open>i\<close> rounds have
  completed in state \<open>st\<close> and the oracle answers \<open>r\<close> to the query at
  \<open>current_value st\<close>, round \<open>i\<close> completes; the new estimate is the float nearest to
  \<open>current_value st + step_size st\<close> if \<open>r > t\<close>, and the float nearest to
  \<open>current_value st - step_size st\<close> otherwise, so also when \<open>r = t\<close>; the step is
  halved afterwards. On the notebook's domain, in the rounds \<open>i \<le> 52\<close> (the first 53),
  these floats are the sum and the difference themselves and the step is not zero: the
  estimate moves by exactly one step, up exactly when \<open>r > t\<close>.
\<close>

theorem b64_round_moves_estimate_by_rounded_step:
  assumes "EstimateMax_b64 lower upper (int i) eps t orc os = (Inr st, os1)"
    and "orc (current_value st) eps os1 = (Inr r, os2)"
  shows "\<exists>st'. EstimateMax_b64 lower upper (int i + 1) eps t orc os = (Inr st', os2) \<and>
     current_value st' = (if r > t then binary64 (current_value st + step_size st)
                          else binary64 (current_value st - step_size st)) \<and>
     step_size st' = binary64 (step_size st / 2) \<and>
     (lower = LOWER_BOUND \<and> upper = UPPER_BOUND \<and> i \<le> 52 \<longrightarrow>
        current_value st' = (if r > t then current_value st + step_size st
                             else current_value st - step_size st) \<and>
        step_size st' = step_size st / 2 \<and> step_size st \<noteq> 0)"
proof -
  let ?st' = "\<lparr>current_value = (if r > t then binary64 (current_value st + step_size st)
                               else binary64 (current_value st - step_size st)),
              step_size = binary64 (step_size st / 2)\<rparr>"
  have body: "loop_body_b64 orc eps t st os1 = (Inr ?st', os2)"
    using assms(2) by (rule loop_body_b64_Inr)
  have run: "for_range_b64 i orc eps t (initial_state_b64 lower upper) os = (Inr st, os1)"
    using assms(1) by (simp add: EstimateMax_b64_def)
  then have "for_range_b64 (Suc i) orc eps t (initial_state_b64 lower upper) os = (Inr ?st', os2)"
    using body by (simp only: for_range_b64_Suc_end prod.case sum.case)
  moreover have "nat (int i + 1) = Suc i"
    by simp
  ultimately have e: "EstimateMax_b64 lower upper (int i + 1) eps t orc os = (Inr ?st', os2)"
    by (simp only: EstimateMax_b64_def)
  have exact: "binary64 (current_value st + step_size st) = current_value st + step_size st \<and>
      binary64 (current_value st - step_size st) = current_value st - step_size st \<and>
      binary64 (step_size st / 2) = step_size st / 2 \<and> step_size st \<noteq> 0"
    if nb: "lower = LOWER_BOUND \<and> upper = UPPER_BOUND \<and> i \<le> 52"
  proof -
    let ?st0 = "initial_state LOWER_BOUND UPPER_BOUND"
    have i: "0 + i \<le> 53" and i': "i < 53"
      using nb by simp_all
    have r: "for_range_b64 i orc eps t ?st0 os = (Inr st, os1)"
      using run nb by (simp only: initial_state_b64_notebook)
    have "for_range_b64 i orc eps t ?st0 os = for_range i orc eps t ?st0 os"
      using on_grid_initial i by (rule for_range_b64_on_grid)
    with r have "for_range i orc eps t ?st0 os = (Inr st, os1)"
      by (simp only:)
    with on_grid_initial i have "on_grid (0 + i) st"
      by (rule for_range_on_grid)
    then have g: "on_grid i st" by simp
    from on_grid_exact(1-3) [OF g i'] on_grid_inside(2) [OF g] show ?thesis
      by simp
  qed
  from e exact show ?thesis
    by (intro exI [of _ ?st']) auto
qed

text \<open>
  The first round on the notebook's domain, with an answer equal to the threshold: the
  estimate goes down from 0 by the step \<open>2^31\<close>, and the step is halved to \<open>2^30\<close>.
\<close>

theorem b64_round_answer_equal_to_threshold:
  "\<exists>st'. EstimateMax_b64 LOWER_BOUND UPPER_BOUND 1 (binary64 0.02) (binary64 0.02)
      (scripted (\<lambda>i. Inr (binary64 0.02)) :: (error, nat) noisy_compare) 0 = (Inr st', 1) \<and>
    current_value st' = - 2147483648 \<and> step_size st' = 1073741824"
proof -
  let ?t = "binary64 0.02"
  let ?orc = "scripted (\<lambda>i. Inr (binary64 0.02)) :: (error, nat) noisy_compare"
  let ?st = "\<lparr>current_value = 0, step_size = 2147483648 :: real\<rparr>"
  have run: "EstimateMax_b64 LOWER_BOUND UPPER_BOUND (int 0) ?t ?t ?orc 0 = (Inr ?st, 0)"
    by (simp add: EstimateMax_b64_def initial_state_b64_notebook initial_state_notebook)
  have ans: "?orc (current_value ?st) ?t 0 = (Inr ?t, 1)"
    by (simp add: scripted_def)
  have "LOWER_BOUND = LOWER_BOUND \<and> UPPER_BOUND = UPPER_BOUND \<and> (0 :: nat) \<le> 52"
    by simp
  with b64_round_moves_estimate_by_rounded_step [OF run ans]
  obtain st' where "EstimateMax_b64 LOWER_BOUND UPPER_BOUND (int 0 + 1) ?t ?t ?orc 0 = (Inr st', 1)"
    and "current_value st' = (if ?t > ?t then current_value ?st + step_size ?st
                             else current_value ?st - step_size ?st)"
    and "step_size st' = step_size ?st / 2"
    by blast
  then show ?thesis
    by (intro exI [of _ st']) simp
qed

text \<open>
  In a later round the estimate need not move. On the notebook's domain, with every
  answer 1, above the threshold: the estimate is \<open>2^32\<close> after 54 rounds, the step of
  round 54 (the 55th) is \<open>2^-23\<close>, and after that round the estimate is \<open>2^32\<close> still.
  The sum \<open>2^32 + 2^-23\<close> is not a float, and the nearest one is \<open>2^32\<close>.
\<close>

theorem b64_round_absorbs_step:
  "EstimateMax_b64 LOWER_BOUND UPPER_BOUND 54 (binary64 0.02) (binary64 0.02)
     (scripted (\<lambda>i. Inr 1) :: (error, nat) noisy_compare) 0 =
     (Inr \<lparr>current_value = 4294967296, step_size = 1 / 2 ^ 23\<rparr>, 54) \<and>
   EstimateMax_b64 LOWER_BOUND UPPER_BOUND 55 (binary64 0.02) (binary64 0.02)
     (scripted (\<lambda>i. Inr 1) :: (error, nat) noisy_compare) 0 =
     (Inr \<lparr>current_value = 4294967296, step_size = 1 / 2 ^ 24\<rparr>, 55) \<and>
   binary64 0.02 < 1 \<and> (4294967296 :: real) \<noteq> 4294967296 + 1 / 2 ^ 23"
proof -
  let ?orc = "scripted (\<lambda>i. Inr 1) :: (error, nat) noisy_compare"
  have above: "\<forall>i<54 + m. binary64 0.02 < (1 :: real)" for m :: nat
    using threshold_b64_less_1 by blast
  have "EstimateMax_b64 LOWER_BOUND UPPER_BOUND (int (54 + 0)) (binary64 0.02) (binary64 0.02) ?orc 0 =
    (Inr \<lparr>current_value = 2 ^ 32, step_size = 2 ^ 31 / 2 ^ (54 + 0)\<rparr>, 54 + 0)"
    using above by (rule EstimateMax_b64_answers_above) simp
  moreover
  have "EstimateMax_b64 LOWER_BOUND UPPER_BOUND (int (54 + 1)) (binary64 0.02) (binary64 0.02) ?orc 0 =
    (Inr \<lparr>current_value = 2 ^ 32, step_size = 2 ^ 31 / 2 ^ (54 + 1)\<rparr>, 54 + 1)"
    using above by (rule EstimateMax_b64_answers_above) simp
  ultimately show ?thesis
    using threshold_b64_less_1 by simp
qed

text \<open>
  C6, as the code has it. The cell validates nothing. With \<open>totalRounds < 1\<close> the loop
  body never runs: no oracle call is made, whatever the bounds and whatever the oracle
  would have done, and the call returns the initial state instead of failing. Bounds with
  \<open>lower \<ge> upper\<close> are not rejected either: for any bounds and any \<open>k\<close>, against an
  oracle that answers, the run makes its \<open>nat k\<close> calls and returns a state.
\<close>

theorem EstimateMax_validates_nothing:
  fixes f :: "real \<Rightarrow> real \<Rightarrow> 'o \<Rightarrow> real \<times> 'o" and orc :: "('e, 'p) noisy_compare"
  defines "ans \<equiv> (answering f :: ('e, 'o) noisy_compare)"
  shows "(k < 1 \<longrightarrow>
      EstimateMax lower upper k eps t (counting orc) (0, os) =
        (Inr (initial_state lower upper), (0, os))) \<and>
    (\<exists>st os'. EstimateMax lower upper k eps t (counting ans) (0, os2) =
        (Inr st, (nat k, os')))"
proof (intro conjI impI)
  assume "k < 1"
  then have "nat k = 0"
    by simp
  then show "EstimateMax lower upper k eps t (counting orc) (0, os) =
      (Inr (initial_state lower upper), (0, os))"
    by (simp add: EstimateMax_def)
next
  obtain st os' where
    "for_range (nat k) ans eps t (initial_state lower upper) os2 = (Inr st, os')"
    unfolding ans_def
    using for_range_answering [of "nat k" f eps t "initial_state lower upper" os2] by auto
  from for_range_counting_Inr [OF this, of 0]
  show "\<exists>st os'. EstimateMax lower upper k eps t (counting ans) (0, os2) =
      (Inr st, (nat k, os'))"
    by (simp add: EstimateMax_def)
qed

text \<open>
  \<open>totalRounds = 0\<close> on the notebook's domain, against an oracle that would raise on
  every call: the run returns the initial state and the counter stays at 0.
\<close>

theorem EstimateMax_zero_rounds_dead_oracle:
  "EstimateMax LOWER_BOUND UPPER_BOUND 0 0.02 0.02
     (counting (scripted (\<lambda>i. Inl OracleUnavailable))) (0, 0) =
     (Inr (initial_state LOWER_BOUND UPPER_BOUND), (0, 0))"
proof -
  have "(0 :: int) < 1"
    by simp
  then show ?thesis
    by (rule EstimateMax_validates_nothing [THEN conjunct1, THEN mp])
qed

text \<open>
  The claim as the specification words it fails twice. \<open>totalRounds = -1\<close> on the
  notebook's domain does not fail: it returns the initial state. And \<open>lower = upper = 1\<close>
  with one round does not fail before the oracle is called: the oracle is called once and
  the run returns.
\<close>

theorem EstimateMax_invalid_configuration_accepted:
  "EstimateMax LOWER_BOUND UPPER_BOUND (- 1) 0.02 0.02
     (counting (scripted (\<lambda>i. Inr 1)) :: (error, nat \<times> nat) noisy_compare) (0, 0) =
     (Inr \<lparr>current_value = 0, step_size = 2147483648\<rparr>, (0, 0)) \<and>
   EstimateMax 1 1 1 0.02 0.02
     (counting (scripted (\<lambda>i. Inr 1)) :: (error, nat \<times> nat) noisy_compare) (0, 0) =
     (Inr \<lparr>current_value = 0, step_size = 0\<rparr>, (1, 1))"
  by (simp add: EstimateMax_def initial_state_notebook)
    (simp add: initial_state_def loop_body_def counting_def scripted_def)

text \<open>
  C7, as the code has it. When the first \<open>j\<close> rounds of a run of \<open>k > j\<close> rounds have
  completed and the oracle raises in round \<open>j\<close>, the run ends with that exception,
  unchanged, and with the oracle in the state the failing call left. The instrumented
  oracle has counted \<open>j + 1\<close> calls: the \<open>j\<close> answered ones and the failing one, so the
  call was not retried and no call followed it. The result is the exception alone:
  nothing in it says how many rounds were spent.
\<close>

theorem oracle_exception_aborts_run:
  assumes "EstimateMax lower upper (int j) eps t orc os = (Inr st, os1)"
    and "orc (current_value st) eps os1 = (Inl e, os2)"
    and "int j < k"
  shows "EstimateMax lower upper k eps t orc os = (Inl e, os2) \<and>
    EstimateMax lower upper k eps t (counting orc) (0, os) = (Inl e, (Suc j, os2))"
proof -
  let ?st0 = "initial_state lower upper"
  have j: "j < nat k"
    using assms(3) by simp
  have run: "for_range j orc eps t ?st0 os = (Inr st, os1)"
    using assms(1) by (simp add: EstimateMax_def)
  have "for_range (nat k) orc eps t ?st0 os = (Inl e, os2)"
    using run assms(2) j by (rule for_range_aborts)
  moreover have "for_range j (counting orc) eps t ?st0 (0, os) = (Inr st, (0 + j, os1))"
    using run by (rule for_range_counting_Inr)
  moreover have "counting orc (current_value st) eps (0 + j, os1) = (Inl e, (Suc j, os2))"
    using assms(2) by (simp add: counting_def)
  ultimately show ?thesis
    using j by (simp add: EstimateMax_def for_range_aborts)
qed

text \<open>
  The scenario of the specification: ten rounds on the notebook's domain, the oracle
  answers 1 twice and raises in the third round (index 2), when asked at
  \<open>2^31 + 2^30\<close>. The run ends with the exception after three calls.
\<close>

theorem oracle_exception_in_third_round:
  "EstimateMax LOWER_BOUND UPPER_BOUND 10 0.02 0.02
     (raising_at 3221225472 OracleUnavailable) () = (Inl OracleUnavailable, ()) \<and>
   EstimateMax LOWER_BOUND UPPER_BOUND 10 0.02 0.02
     (counting (raising_at 3221225472 OracleUnavailable)) (0, ()) =
     (Inl OracleUnavailable, (3, ()))"
proof -
  let ?orc = "raising_at 3221225472 OracleUnavailable :: (error, unit) noisy_compare"
  let ?st = "\<lparr>current_value = 3221225472, step_size = 536870912\<rparr>"
  have run: "EstimateMax LOWER_BOUND UPPER_BOUND (int 2) 0.02 0.02 ?orc () = (Inr ?st, ())"
    by (simp add: EstimateMax_def initial_state_notebook loop_body_def raising_at_def
        numeral_2_eq_2)
  have raise: "?orc (current_value ?st) 0.02 () = (Inl OracleUnavailable, ())"
    by (simp add: raising_at_def)
  have "int 2 < 10"
    by simp
  from oracle_exception_aborts_run [OF run raise this] show ?thesis
    by (simp add: numeral_3_eq_3)
qed

text \<open>
  The claim as the specification words it fails where it has the run report the rounds
  spent. Ten rounds on the notebook's domain, once with the oracle raising in the third
  round (at the threshold \<open>2^31 + 2^30\<close>) and once with the oracle raising in the first
  (at the threshold 0): the counter shows three calls and one call, and the two runs
  return the same value, the bare exception.
\<close>

theorem oracle_exception_reports_no_rounds:
  "EstimateMax LOWER_BOUND UPPER_BOUND 10 0.02 0.02
     (raising_at 3221225472 OracleUnavailable) () = (Inl OracleUnavailable, ()) \<and>
   EstimateMax LOWER_BOUND UPPER_BOUND 10 0.02 0.02
     (raising_at 0 OracleUnavailable) () = (Inl OracleUnavailable, ()) \<and>
   snd (EstimateMax LOWER_BOUND UPPER_BOUND 10 0.02 0.02
     (counting (raising_at 3221225472 OracleUnavailable)) (0, ())) = (3, ()) \<and>
   snd (EstimateMax LOWER_BOUND UPPER_BOUND 10 0.02 0.02
     (counting (raising_at 0 OracleUnavailable)) (0, ())) = (1, ())"
proof -
  let ?A = "raising_at 3221225472 OracleUnavailable :: (error, unit) noisy_compare"
  let ?B = "raising_at 0 OracleUnavailable :: (error, unit) noisy_compare"
  let ?st0 = "initial_state LOWER_BOUND UPPER_BOUND"
  let ?st2 = "\<lparr>current_value = 3221225472, step_size = 536870912\<rparr>"
  have A2: "for_range 2 ?A 0.02 0.02 ?st0 () = (Inr ?st2, ())"
    by (simp add: initial_state_notebook loop_body_def raising_at_def numeral_2_eq_2)
  have Ar: "?A (current_value ?st2) 0.02 () = (Inl OracleUnavailable, ())"
    by (simp add: raising_at_def)
  have "for_range 10 ?A 0.02 0.02 ?st0 () = (Inl OracleUnavailable, ())"
    using A2 Ar by (rule for_range_aborts) simp
  then have A: "EstimateMax LOWER_BOUND UPPER_BOUND 10 0.02 0.02 ?A () = (Inl OracleUnavailable, ())"
    by (simp add: EstimateMax_def)
  have "for_range 2 (counting ?A) 0.02 0.02 ?st0 (0, ()) = (Inr ?st2, (0 + 2, ()))"
    using A2 by (rule for_range_counting_Inr)
  moreover have "counting ?A (current_value ?st2) 0.02 (0 + 2, ()) = (Inl OracleUnavailable, (3, ()))"
    by (simp add: counting_def raising_at_def)
  ultimately have "for_range 10 (counting ?A) 0.02 0.02 ?st0 (0, ()) = (Inl OracleUnavailable, (3, ()))"
    by (rule for_range_aborts) simp
  then have Ac: "EstimateMax LOWER_BOUND UPPER_BOUND 10 0.02 0.02 (counting ?A) (0, ()) =
      (Inl OracleUnavailable, (3, ()))"
    by (simp add: EstimateMax_def)
  have B0: "for_range 0 ?B 0.02 0.02 ?st0 () = (Inr ?st0, ())"
    by simp
  have Br: "?B (current_value ?st0) 0.02 () = (Inl OracleUnavailable, ())"
    by (simp add: raising_at_def initial_state_notebook)
  have "for_range 10 ?B 0.02 0.02 ?st0 () = (Inl OracleUnavailable, ())"
    using B0 Br by (rule for_range_aborts) simp
  then have B: "EstimateMax LOWER_BOUND UPPER_BOUND 10 0.02 0.02 ?B () = (Inl OracleUnavailable, ())"
    by (simp add: EstimateMax_def)
  have "for_range 0 (counting ?B) 0.02 0.02 ?st0 (0, ()) = (Inr ?st0, (0, ()))"
    by simp
  moreover have "counting ?B (current_value ?st0) 0.02 (0, ()) = (Inl OracleUnavailable, (1, ()))"
    by (simp add: counting_def raising_at_def initial_state_notebook)
  ultimately have "for_range 10 (counting ?B) 0.02 0.02 ?st0 (0, ()) = (Inl OracleUnavailable, (1, ()))"
    by (rule for_range_aborts) simp
  then have Bc: "EstimateMax LOWER_BOUND UPPER_BOUND 10 0.02 0.02 (counting ?B) (0, ()) =
      (Inl OracleUnavailable, (1, ()))"
    by (simp add: EstimateMax_def)
  from A B Ac Bc show ?thesis
    by simp
qed

text \<open>
  C8. The search state at the start of a run, which is also what a run of no rounds
  returns: the step is a quarter of the width of the domain, for any bounds, and the
  estimate starts at the literal 0, which is the midpoint of the domain the notebook
  uses.
\<close>

theorem initial_state_midpoint_and_quarter_step:
  "EstimateMax lower upper 0 eps t orc os = (Inr (initial_state lower upper), os) \<and>
   step_size (initial_state lower upper) = (upper - lower) / 4 \<and>
   current_value (initial_state lower upper) = 0 \<and>
   initial_state LOWER_BOUND UPPER_BOUND =
     \<lparr>current_value = (LOWER_BOUND + UPPER_BOUND) / 2,
      step_size = (UPPER_BOUND - LOWER_BOUND) / 4\<rparr>"
  by (simp add: EstimateMax_def initial_state_def LOWER_BOUND_def UPPER_BOUND_def)

text \<open>
  C9. The loop never clamps. On the notebook's domain \<open>[-2^32, 2^32]\<close>, where the
  cell's seed 0 is the midpoint and its first step \<open>2^31\<close> is \<open>(upper - lower) / 4\<close>,
  the cell in binary64 keeps the estimate in the closed interval
  \<open>[LOWER_BOUND, UPPER_BOUND]\<close> after every round \<open>n \<le> k\<close> of a completed run of \<open>k\<close>
  rounds, for every \<open>k\<close> and whatever the oracle answered; after the rounds \<open>n \<le> 53\<close>
  the estimate is strictly inside.
\<close>

theorem b64_estimate_stays_inside_closed_domain:
  assumes "EstimateMax_b64 LOWER_BOUND UPPER_BOUND k eps t orc os = (Inr stk, osk)"
    and "int n \<le> k"
  shows "\<exists>st os'. EstimateMax_b64 LOWER_BOUND UPPER_BOUND (int n) eps t orc os = (Inr st, os') \<and>
    LOWER_BOUND \<le> current_value st \<and> current_value st \<le> UPPER_BOUND \<and>
    (n \<le> 53 \<longrightarrow> LOWER_BOUND < current_value st \<and> current_value st < UPPER_BOUND)"
proof -
  let ?st0 = "initial_state LOWER_BOUND UPPER_BOUND"
  have "for_range_b64 (nat k) orc eps t ?st0 os = (Inr stk, osk)"
    using assms(1) by (simp only: EstimateMax_b64_def initial_state_b64_notebook)
  moreover have "n \<le> nat k"
    using assms(2) by simp
  ultimately obtain st os' where run: "for_range_b64 n orc eps t ?st0 os = (Inr st, os')"
    by (blast dest: for_range_b64_prefix)
  then have e: "EstimateMax_b64 LOWER_BOUND UPPER_BOUND (int n) eps t orc os = (Inr st, os')"
    by (simp only: EstimateMax_b64_def initial_state_b64_notebook nat_int)
  have "\<bar>current_value st\<bar> \<le> 2 ^ 32 \<and> (n \<le> 53 \<longrightarrow> \<bar>current_value st\<bar> < 2 ^ 32)"
  proof (cases "n \<le> 53")
    case True
    then have "0 + n \<le> 53" by simp
    with on_grid_initial have "for_range_b64 n orc eps t ?st0 os = for_range n orc eps t ?st0 os"
      by (rule for_range_b64_on_grid)
    with run have "for_range n orc eps t ?st0 os = (Inr st, os')"
      by (simp only:)
    with on_grid_initial \<open>0 + n \<le> 53\<close> have "on_grid (0 + n) st"
      by (rule for_range_on_grid)
    then have "\<bar>current_value st\<bar> < 2 ^ 32"
      by (rule on_grid_inside)
    then show ?thesis by simp
  next
    case False
    then have "53 \<le> n" by simp
    with run obtain st53 os53 where r53: "for_range_b64 53 orc eps t ?st0 os = (Inr st53, os53)"
      and rest: "for_range_b64 (n - 53) orc eps t st53 os53 = (Inr st, os')"
      by (blast dest: for_range_b64_prefix)
    have "for_range_b64 53 orc eps t ?st0 os = for_range 53 orc eps t ?st0 os"
      using on_grid_initial by (rule for_range_b64_on_grid) simp
    with r53 have "for_range 53 orc eps t ?st0 os = (Inr st53, os53)"
      by (simp only:)
    moreover have "0 + (53 :: nat) \<le> 53" by simp
    ultimately have g: "on_grid (0 + 53) st53"
      using on_grid_initial by (blast intro: for_range_on_grid)
    then have "\<bar>current_value st53\<bar> \<le> 2 ^ 32" and "0 \<le> step_size st53"
      using on_grid_inside [OF g] by simp_all
    moreover from g have "step_size st53 \<le> 1 / 2 ^ 22"
      by (simp add: on_grid_def)
    ultimately have "\<bar>current_value st\<bar> \<le> 2 ^ 32"
      using rest by (blast dest: for_range_b64_in_bounds)
    with False show ?thesis by simp
  qed
  then show ?thesis
    using e by (auto simp: LOWER_BOUND_def UPPER_BOUND_def abs_le_iff abs_less_iff)
qed

text \<open>
  After two rounds with the answer 1 the estimate is \<open>2^31 + 2^30\<close>, strictly inside
  \<open>(-2^32, 2^32)\<close>.
\<close>

theorem b64_estimate_inside_after_two_rounds:
  "\<exists>st os'. EstimateMax_b64 LOWER_BOUND UPPER_BOUND 2 0.02 0.02
      (scripted (\<lambda>i. Inr 1) :: (error, nat) noisy_compare) 0 = (Inr st, os') \<and>
    LOWER_BOUND < current_value st \<and> current_value st < UPPER_BOUND"
proof -
  let ?orc = "scripted (\<lambda>i. Inr 1) :: (error, nat) noisy_compare"
  have "EstimateMax_b64 LOWER_BOUND UPPER_BOUND 2 0.02 0.02 ?orc 0 =
      EstimateMax LOWER_BOUND UPPER_BOUND 2 0.02 0.02 ?orc 0"
    by (rule EstimateMax_b64_exact) simp
  then have run: "EstimateMax_b64 LOWER_BOUND UPPER_BOUND 2 0.02 0.02 ?orc 0 =
      (Inr \<lparr>current_value = 3221225472, step_size = 536870912\<rparr>, 2)"
    by (simp only: run_two_rounds_up)
  have n: "int 2 \<le> 2" and "(2 :: nat) \<le> 53" and i2: "int 2 = 2"
    by simp_all
  with b64_estimate_stays_inside_closed_domain [OF run n] show ?thesis
    by (simp only:) blast
qed

text \<open>
  The estimate does not stay in the open interval. The cell as the notebook has it,
  \<open>k = 64\<close>, against an oracle whose every answer is above the threshold, ends with
  \<open>current_value = UPPER_BOUND\<close>: in round 54 the sum \<open>(2^32 - 2^-21) + 2^-22\<close> is a
  tie between two floats and rounds to \<open>2^32\<close>, and every later step is absorbed.
\<close>

theorem b64_estimate_reaches_upper_bound:
  "estimator_cell_b64 (scripted (\<lambda>i. Inr 1) :: (error, nat) noisy_compare) 0 =
     (Inr \<lparr>current_value = UPPER_BOUND, step_size = 1 / 2 ^ 33\<rparr>, 64)"
proof -
  have "\<forall>i<54 + (10 :: nat). binary64 0.02 < (1 :: real)"
    using threshold_b64_less_1 by blast
  then have "EstimateMax_b64 LOWER_BOUND UPPER_BOUND (int (54 + 10)) (binary64 0.02) (binary64 0.02)
      (scripted (\<lambda>i. Inr 1) :: (error, nat) noisy_compare) 0 =
    (Inr \<lparr>current_value = 2 ^ 32, step_size = 2 ^ 31 / 2 ^ (54 + 10)\<rparr>, 54 + 10)"
    by (rule EstimateMax_b64_answers_above) simp
  then show ?thesis
    by (simp add: estimator_cell_b64_def UPPER_BOUND_def)
qed

text \<open>
  C10. The final estimate as a function of the sequence of answers. For a domain with
  \<open>lower \<le> upper\<close>, two runs of \<open>k\<close> rounds against oracles that answer from the
  sequences \<open>a\<close> and \<open>b\<close>, with \<open>a i \<ge> b i\<close> in every round \<open>i < k\<close>: both runs complete
  after \<open>k\<close> calls, and the estimate from \<open>a\<close> is at least the estimate from \<open>b\<close>.
\<close>

theorem estimate_monotone_in_answers:
  fixes a b :: "nat \<Rightarrow> real"
  defines "A \<equiv> (scripted (\<lambda>i. Inr (a i)) :: ('e, nat) noisy_compare)"
    and "B \<equiv> (scripted (\<lambda>i. Inr (b i)) :: ('e, nat) noisy_compare)"
  assumes "lower \<le> upper" and "\<forall>i<nat k. b i \<le> a i"
  shows "\<exists>sa sb. EstimateMax lower upper k eps t A 0 = (Inr sa, nat k) \<and>
    EstimateMax lower upper k eps t B 0 = (Inr sb, nat k) \<and>
    current_value sb \<le> current_value sa"
proof -
  let ?st0 = "initial_state lower upper"
  have "0 \<le> step_size ?st0"
    using assms(3) by (simp add: initial_state_def)
  moreover have "\<forall>i<nat k. b (0 + i) \<le> a (0 + i)"
    using assms(4) by simp
  ultimately have "\<exists>sa' sb'.
      for_range (nat k) (scripted (\<lambda>i. Inr (a i)) :: ('e, nat) noisy_compare) eps t ?st0 0
        = (Inr sa', 0 + nat k) \<and>
      for_range (nat k) (scripted (\<lambda>i. Inr (b i)) :: ('e, nat) noisy_compare) eps t ?st0 0
        = (Inr sb', 0 + nat k) \<and>
      current_value sb' \<le> current_value sa'"
    by (intro for_range_scripted_mono) simp_all
  then show ?thesis
    by (simp add: EstimateMax_def A_def B_def)
qed

text \<open>
  The notebook's domain, two rounds, the answers 1, 1 against the answers 0, 0: the
  estimates are \<open>2^31 + 2^30\<close> and \<open>-(2^31 + 2^30)\<close>.
\<close>

theorem estimate_monotone_all_up_all_down:
  "\<exists>sa sb.
     EstimateMax LOWER_BOUND UPPER_BOUND 2 0.02 0.02
       (scripted (\<lambda>i. Inr 1) :: (error, nat) noisy_compare) 0 = (Inr sa, 2) \<and>
     EstimateMax LOWER_BOUND UPPER_BOUND 2 0.02 0.02
       (scripted (\<lambda>i. Inr 0) :: (error, nat) noisy_compare) 0 = (Inr sb, 2) \<and>
     current_value sb \<le> current_value sa \<and>
     current_value sa = 3221225472 \<and> current_value sb = - 3221225472"
proof -
  let ?A = "scripted (\<lambda>i. Inr 1) :: (error, nat) noisy_compare"
  let ?B = "scripted (\<lambda>i. Inr 0) :: (error, nat) noisy_compare"
  have dom: "LOWER_BOUND \<le> UPPER_BOUND"
    by (simp add: LOWER_BOUND_def UPPER_BOUND_def)
  have le: "\<forall>i<nat 2. (0 :: real) \<le> 1"
    by simp
  have A: "EstimateMax LOWER_BOUND UPPER_BOUND 2 0.02 0.02 ?A 0 =
      (Inr \<lparr>current_value = 3221225472, step_size = 536870912\<rparr>, 2)"
    by (rule run_two_rounds_up)
  have B: "EstimateMax LOWER_BOUND UPPER_BOUND 2 0.02 0.02 ?B 0 =
      (Inr \<lparr>current_value = - 3221225472, step_size = 536870912\<rparr>, 2)"
    by (simp add: EstimateMax_def initial_state_notebook loop_body_scripted_down numeral_2_eq_2)
  from estimate_monotone_in_answers [OF dom le, of "0.02" "0.02"]
  obtain sa sb where a: "EstimateMax LOWER_BOUND UPPER_BOUND 2 0.02 0.02 ?A 0 = (Inr sa, nat 2)"
    and b: "EstimateMax LOWER_BOUND UPPER_BOUND 2 0.02 0.02 ?B 0 = (Inr sb, nat 2)"
    and le: "current_value sb \<le> current_value sa"
    by blast
  from a A have sa: "sa = \<lparr>current_value = 3221225472, step_size = 536870912\<rparr>"
    by simp
  from b B have sb: "sb = \<lparr>current_value = - 3221225472, step_size = 536870912\<rparr>"
    by simp
  from le sa sb a b show ?thesis
    by simp
qed

end
